theory Spec2Isabelle
  imports Main "HOL-Library.Char_ord" "HOL-Library.List_Lexorder" "HOL-Library.Sublist"
begin

section \<open>repo2text: ignore patterns, tree walk and document assembly\<close>

text \<open>
  A shallow embedding of \<^verbatim>\<open>repo2text/repo2text.py\<close>. Python strings are
  \<^typ>\<open>string\<close> (lists of characters, compared by code point as Python compares
  them), lists are lists, exceptions are the left injection of a sum, and everything
  that is printed is collected in a console log that is passed along.
\<close>

subsection \<open>Python string helpers\<close>

definition is_space :: "char \<Rightarrow> bool" where
  \<comment> \<open>\<^verbatim>\<open>str.isspace\<close> on the code points below 256\<close>
  "is_space c = (let n = (of_char c :: nat)
                 in (9 \<le> n \<and> n \<le> 13) \<or> (28 \<le> n \<and> n \<le> 32) \<or> n = 133 \<or> n = 160)"

definition lstrip :: "string \<Rightarrow> string" where
  "lstrip s = dropWhile is_space s"

definition rstrip :: "string \<Rightarrow> string" where
  "rstrip s = rev (dropWhile is_space (rev s))"

definition strip :: "string \<Rightarrow> string" where
  "strip s = rstrip (lstrip s)"

definition rstrip_nl :: "string \<Rightarrow> string" where
  \<comment> \<open>\<^verbatim>\<open>s.rstrip('\n')\<close>\<close>
  "rstrip_nl s = rev (dropWhile (\<lambda>c. c = CHR 0x0A) (rev s))"

definition startswith :: "string \<Rightarrow> string \<Rightarrow> bool" where
  "startswith s p = (take (length p) s = p)"

definition endswith :: "string \<Rightarrow> string \<Rightarrow> bool" where
  "endswith s p = (length p \<le> length s \<and> drop (length s - length p) s = p)"

fun join :: "string \<Rightarrow> string list \<Rightarrow> string" where
  \<comment> \<open>\<^verbatim>\<open>sep.join(items)\<close>\<close>
  "join sep [] = []"
| "join sep [x] = x"
| "join sep (x # y # ys) = x @ sep @ join sep (y # ys)"

fun split_sep :: "string \<Rightarrow> string list" where
  \<comment> \<open>\<^verbatim>\<open>s.split('/')\<close>: the pieces between the separators, empty pieces kept\<close>
  "split_sep [] = [[]]"
| "split_sep (c # cs) =
     (if c = CHR ''/'' then [] # split_sep cs
      else (case split_sep cs of [] \<Rightarrow> [[c]] | w # ws \<Rightarrow> (c # w) # ws))"

subsection \<open>The console\<close>

text \<open>
  Every \<^verbatim>\<open>print\<close> of the source writes one text to the console, and a write can
  raise (the console cannot encode a character, the pipe is closed). The console is
  the list of the texts printed so far, and its behaviour is a parameter: \<open>tty log
  text\<close> is \<open>None\<close> when printing \<open>text\<close> after \<open>log\<close> succeeds and \<open>Some e\<close>
  when it raises \<open>e\<close>. The colour codes are those of \<^verbatim>\<open>colorama\<close>.
\<close>

type_synonym console_behaviour = "string list \<Rightarrow> string \<Rightarrow> string option"

definition print_text :: "console_behaviour \<Rightarrow> string \<Rightarrow> string list \<Rightarrow> string + string list" where
  \<comment> \<open>\<^verbatim>\<open>print(text)\<close>: the exception, or the console with the text added\<close>
  "print_text tty text console =
     (case tty console text of None \<Rightarrow> Inr (console @ [text]) | Some e \<Rightarrow> Inl e)"

definition never_fails :: "console_behaviour \<Rightarrow> bool" where
  \<comment> \<open>a console on which no print raises\<close>
  "never_fails tty = (\<forall>log text. tty log text = None)"

definition reliable_console :: console_behaviour where
  "reliable_console log text = None"

definition ascii_console :: console_behaviour where
  \<comment> \<open>a console that raises on a text with a character beyond ASCII\<close>
  "ascii_console log text =
     (if list_ex (\<lambda>c. 127 < (of_char c :: nat)) text
      then Some ''ascii codec cannot encode character'' else None)"

text \<open>
  \<open>prints_succeed tty console texts\<close>: printing the texts one after the other, from
  the console \<open>console\<close> on, raises nowhere.
\<close>

fun prints_succeed :: "console_behaviour \<Rightarrow> string list \<Rightarrow> string list \<Rightarrow> bool" where
  "prints_succeed tty console [] = True"
| "prints_succeed tty console (text # texts) =
     (tty console text = None \<and> prints_succeed tty (console @ [text]) texts)"

definition fore_green :: string where "fore_green = CHR 0x1B # ''[32m''"
definition fore_magenta :: string where "fore_magenta = CHR 0x1B # ''[35m''"
definition fore_white :: string where "fore_white = CHR 0x1B # ''[37m''"
definition fore_yellow :: string where "fore_yellow = CHR 0x1B # ''[33m''"
definition fore_red :: string where "fore_red = CHR 0x1B # ''[31m''"
definition style_reset_all :: string where "style_reset_all = CHR 0x1B # ''[0m''"

definition print_header :: "console_behaviour \<Rightarrow> string \<Rightarrow> string list \<Rightarrow> string + string list" where
  "print_header tty file console =
     print_text tty (fore_green @ ''### File: '' @ file @ style_reset_all) console"

definition print_code_block_indicator :: "console_behaviour \<Rightarrow> string list \<Rightarrow> string + string list" where
  "print_code_block_indicator tty console =
     print_text tty (fore_magenta @ ''### Code block below:'' @ style_reset_all) console"

definition print_truncated_content :: "console_behaviour \<Rightarrow> string \<Rightarrow> string list \<Rightarrow> string + string list" where
  "print_truncated_content tty content console =
     print_text tty (fore_white @ content @ ''...'' @ [CHR 0x0A] @ style_reset_all) console"

definition print_warning :: "console_behaviour \<Rightarrow> string \<Rightarrow> string list \<Rightarrow> string + string list" where
  "print_warning tty message console =
     print_text tty (fore_yellow @ message @ style_reset_all) console"

definition print_error :: "console_behaviour \<Rightarrow> string \<Rightarrow> string list \<Rightarrow> string + string list" where
  "print_error tty message console =
     print_text tty (fore_red @ message @ style_reset_all) console"

definition print_empty :: "console_behaviour \<Rightarrow> string list \<Rightarrow> string + string list" where
  \<comment> \<open>\<^verbatim>\<open>print()\<close>\<close>
  "print_empty tty console = print_text tty [] console"

subsection \<open>The pattern set (\<^verbatim>\<open>pathspec.PathSpec\<close>)\<close>

text \<open>
  The source builds its matcher with the \<^verbatim>\<open>pathspec\<close> library, of any release
  from 0.9.0 on. A compiled pattern has an \<^verbatim>\<open>include\<close> flag (\<^verbatim>\<open>None\<close> for a
  comment or a blank line, \<^verbatim>\<open>False\<close> for a negation introduced by \<^verbatim>\<open>!\<close>,
  \<^verbatim>\<open>True\<close> otherwise) and a regular expression translated from the rest of the
  line. What is not part of the repository is a parameter:
  \<^item> \<open>rx b p\<close>, the test ``the expression of pattern text \<open>b\<close> matches path \<open>p\<close>'';
  \<^item> \<open>rejects lib line\<close>, the exception that the library raises on a rule line it
    holds invalid (a lone \<^verbatim>\<open>!\<close>, say), \<open>None\<close> when it accepts the line;
  \<^item> \<open>keeps_leading_blanks lib\<close>, whether the release leaves the blanks in front of
    a rule in place, as later releases do, or strips them, as earlier ones do.
  Every result holds for each value of these.
\<close>

record pattern =
  pat_include :: "bool option"
  pat_body :: string

type_synonym regex_test = "string \<Rightarrow> string \<Rightarrow> bool"

type_synonym pathspec = "pattern list"

record pathspec_lib =
  keeps_leading_blanks :: bool
  rejects :: "string \<Rightarrow> string option"

definition pattern_of_line :: "bool \<Rightarrow> string \<Rightarrow> pattern" where
  \<comment> \<open>the head of \<^verbatim>\<open>GitWildMatchPattern.pattern_to_regex\<close>: strip, then classify\<close>
  "pattern_of_line keeps line =
     (let pat = (if keeps then (if endswith line [CHR 0x5C, CHR '' ''] then line else rstrip line)
                 else (if endswith line [CHR 0x5C, CHR '' ''] then lstrip line else strip line))
      in if startswith pat ''#'' then \<lparr>pat_include = None, pat_body = pat\<rparr>
         else if pat = ''/'' then \<lparr>pat_include = None, pat_body = pat\<rparr>
         else if pat \<noteq> [] then
           (if startswith pat ''!'' then \<lparr>pat_include = Some False, pat_body = drop 1 pat\<rparr>
            else \<lparr>pat_include = Some True, pat_body = pat\<rparr>)
         else \<lparr>pat_include = None, pat_body = pat\<rparr>)"

fun from_lines :: "pathspec_lib \<Rightarrow> string list \<Rightarrow> string + pathspec" where
  \<comment> \<open>\<^verbatim>\<open>PathSpec.from_lines('gitwildmatch', lines)\<close>: one pattern for each line
      that is not the empty string; the exception of the first line that is rejected\<close>
  "from_lines lib [] = Inr []"
| "from_lines lib (line # lines) =
     (if line = [] then from_lines lib lines
      else (case rejects lib line of
              Some e \<Rightarrow> Inl e
            | None \<Rightarrow>
                (case from_lines lib lines of
                   Inl e \<Rightarrow> Inl e
                 | Inr patterns \<Rightarrow>
                     Inr (pattern_of_line (keeps_leading_blanks lib) line # patterns))))"

definition patterns_of :: "string list \<Rightarrow> pathspec" where
  \<comment> \<open>the patterns of lines that the library accepts, leading blanks stripped\<close>
  "patterns_of lines = map (pattern_of_line False) (filter (\<lambda>line. line \<noteq> []) lines)"

definition strict_lib :: pathspec_lib where
  \<comment> \<open>a library that strips leading blanks and rejects a rule made of \<^verbatim>\<open>!\<close> alone\<close>
  "strict_lib =
     \<lparr>keeps_leading_blanks = False,
      rejects = (\<lambda>line. if strip line = ''!'' then Some ''Invalid git pattern'' else None)\<rparr>"

fun check_match_file :: "regex_test \<Rightarrow> pattern list \<Rightarrow> string \<Rightarrow> bool option \<Rightarrow> bool option" where
  \<comment> \<open>the loop of \<^verbatim>\<open>check_match_file\<close>: the last pattern that matches decides\<close>
  "check_match_file rx [] file out_include = out_include"
| "check_match_file rx (p # ps) file out_include =
     check_match_file rx ps file
       (if pat_include p \<noteq> None \<and> rx (pat_body p) file then pat_include p else out_include)"

definition match_file :: "regex_test \<Rightarrow> pathspec \<Rightarrow> string \<Rightarrow> bool" where
  \<comment> \<open>\<^verbatim>\<open>PathSpec.match_file\<close>: \<^verbatim>\<open>bool(include)\<close> of the deciding pattern\<close>
  "match_file rx spec file =
     (case check_match_file rx spec file None of None \<Rightarrow> False | Some b \<Rightarrow> b)"

definition pathspec_add :: "pathspec \<Rightarrow> pathspec \<Rightarrow> pathspec" where
  \<comment> \<open>\<^verbatim>\<open>PathSpec.__add__\<close>: the patterns of both, the left operand's first\<close>
  "pathspec_add a b = a @ b"

subsection \<open>\<^verbatim>\<open>load_gitignore\<close>\<close>

definition default_ignore_patterns :: "string list" where
  "default_ignore_patterns =
     [''.git/'', ''.svn/'', ''.hg/'', ''.DS_Store'', ''__pycache__/'', ''*.pyc'', ''*.pyo'',
      ''*.pyd'', ''*$py.class'', ''*.so'', ''build/'', ''dist/'', ''downloads/'', ''eggs/'',
      ''.eggs/'', ''lib/'', ''lib64/'', ''parts/'', ''sdist/'']"

text \<open>
  The state of \<^verbatim>\<open>.gitignore\<close> when \<^verbatim>\<open>load_gitignore\<close> runs:
  \<open>None\<close> when \<^verbatim>\<open>os.path.exists\<close> is false, \<open>Some (Inl e)\<close> when the
  file exists and opening or reading it raises \<open>e\<close>, \<open>Some (Inr lines)\<close> when
  \<^verbatim>\<open>readlines\<close> returns \<open>lines\<close>. No exception is caught in
  \<^verbatim>\<open>load_gitignore\<close>: one that is raised by the read, by a print or by the
  library on a rule ends the run, and is the left result.
\<close>

type_synonym gitignore_state = "(string + string list) option"

definition load_gitignore ::
  "pathspec_lib \<Rightarrow> console_behaviour \<Rightarrow> gitignore_state \<Rightarrow> string list \<Rightarrow> string + (pathspec \<times> string list)" where
  \<comment> \<open>returns the combined spec and the console\<close>
  "load_gitignore lib tty gi console =
     (case (case gi of
              Some (Inl e) \<Rightarrow> Inl e
            | Some (Inr gitignore_lines) \<Rightarrow>
                (case (if gitignore_lines = []
                       then print_warning tty ''Alert: .gitignore is empty.'' console
                       else Inr console) of
                   Inl e \<Rightarrow> Inl e
                 | Inr console1 \<Rightarrow>
                     (case from_lines lib gitignore_lines of
                        Inl e \<Rightarrow> Inl e
                      | Inr gitignore_spec \<Rightarrow> Inr (gitignore_spec, console1)))
            | None \<Rightarrow>
                (case print_warning tty
                        ''Alert: .gitignore file not found. Using default ignore patterns.''
                        console of
                   Inl e \<Rightarrow> Inl e
                 | Inr console1 \<Rightarrow>
                     (case from_lines lib [] of
                        Inl e \<Rightarrow> Inl e
                      | Inr gitignore_spec \<Rightarrow> Inr (gitignore_spec, console1)))) of
        Inl e \<Rightarrow> Inl e
      | Inr (gitignore_spec, console1) \<Rightarrow>
          (case from_lines lib default_ignore_patterns of
             Inl e \<Rightarrow> Inl e
           | Inr default_spec \<Rightarrow> Inr (pathspec_add gitignore_spec default_spec, console1)))"

definition user_rules :: "gitignore_state \<Rightarrow> string list" where
  \<comment> \<open>the lines of the user's rule file, none when there is no file\<close>
  "user_rules gi = (case gi of Some (Inr gitignore_lines) \<Rightarrow> gitignore_lines | _ \<Rightarrow> [])"

text \<open>
  One instance of the test, for evaluating the definitions on examples: the gitignore
  reading of patterns built from literal characters, \<^verbatim>\<open>*\<close> and \<^verbatim>\<open>?\<close>.
  A pattern with no inner separator matches a path component at any depth, a pattern
  with one is matched from the root, a trailing separator demands that something
  follows the matched component, and a component that is matched is not empty.
\<close>

fun glob :: "string \<Rightarrow> string \<Rightarrow> bool" where
  "glob [] [] = True"
| "glob [] (c # cs) = False"
| "glob (p # ps) [] = (p = CHR ''*'' \<and> glob ps [])"
| "glob (p # ps) (c # cs) =
     (if p = CHR ''*'' then glob ps (c # cs) \<or> glob (p # ps) cs
      else (p = CHR ''?'' \<or> p = c) \<and> glob ps cs)"

fun glob_segments :: "string list \<Rightarrow> string list \<Rightarrow> bool" where
  "glob_segments [] comps = True"
| "glob_segments (s # segs) [] = False"
| "glob_segments (s # segs) (c # comps) = (c \<noteq> [] \<and> glob s c \<and> glob_segments segs comps)"

definition simple_wildmatch :: regex_test where
  "simple_wildmatch body path =
     (let dir_only = endswith body ''/'';
          core = (if dir_only then butlast body else body);
          comps = split_sep path;
          cands = (if dir_only then butlast comps else comps)
      in if CHR ''/'' \<in> set core
         then (let segs = split_sep (if startswith core ''/'' then drop 1 core else core)
               in length segs \<le> length cands \<and> glob_segments segs comps)
         else list_ex (\<lambda>c. c \<noteq> [] \<and> glob core c) cands)"

subsection \<open>Paths (\<^verbatim>\<open>os.path\<close>, \<^verbatim>\<open>pathlib\<close>)\<close>

definition path_join :: "string \<Rightarrow> string \<Rightarrow> string" where
  \<comment> \<open>\<^verbatim>\<open>posixpath.join(a, b)\<close>\<close>
  "path_join a b =
     (if startswith b ''/'' then b
      else if a = [] \<or> endswith a ''/'' then a @ b
      else a @ ''/'' @ b)"

definition normpath_step :: "nat \<Rightarrow> string list \<Rightarrow> string \<Rightarrow> string list" where
  \<comment> \<open>one round of the loop over the components in \<^verbatim>\<open>posixpath.normpath\<close>\<close>
  "normpath_step initial_slashes new_comps part =
     (if part = [] \<or> part = ''.'' then new_comps
      else if part \<noteq> ''..'' \<or> (initial_slashes = 0 \<and> new_comps = [])
              \<or> (new_comps \<noteq> [] \<and> last new_comps = ''..'')
        then new_comps @ [part]
      else if new_comps \<noteq> [] then butlast new_comps
      else new_comps)"

definition normpath :: "string \<Rightarrow> string" where
  "normpath path =
     (if path = [] then ''.''
      else
        (let initial_slashes =
               (if startswith path ''/''
                then (if startswith path ''//'' \<and> \<not> startswith path ''///'' then 2 else 1)
                else (0::nat));
             comps = foldl (normpath_step initial_slashes) [] (split_sep path);
             p = replicate initial_slashes CHR ''/'' @ join ''/'' comps
         in if p = [] then ''.'' else p))"

definition relpath :: "string \<Rightarrow> string" where
  \<comment> \<open>\<^verbatim>\<open>os.path.relpath(path, '.')\<close> for a relative \<open>path\<close> that stays below the
      working directory: the components that \<^verbatim>\<open>abspath\<close> puts in front of both
      arguments are their common prefix, and what is left of \<open>path\<close> is joined\<close>
  "relpath path =
     (let rel_list = filter (\<lambda>x. x \<noteq> [] \<and> x \<noteq> ''.'') (split_sep (normpath path))
      in if rel_list = [] then ''.'' else join ''/'' rel_list)"

definition basename :: "string \<Rightarrow> string" where
  \<comment> \<open>\<^verbatim>\<open>os.path.basename\<close>: what follows the last separator\<close>
  "basename p = rev (takeWhile (\<lambda>c. c \<noteq> CHR ''/'') (rev p))"

definition count_sep :: "string \<Rightarrow> nat" where
  \<comment> \<open>\<^verbatim>\<open>s.count(os.sep)\<close>\<close>
  "count_sep s = length (filter (\<lambda>c. c = CHR ''/'') s)"

definition path_name :: "string \<Rightarrow> string" where
  \<comment> \<open>\<^verbatim>\<open>Path(p).name\<close> of a relative path: its last part, empty and \<^verbatim>\<open>.\<close>
      components not being parts\<close>
  "path_name p =
     (let parts = filter (\<lambda>x. x \<noteq> [] \<and> x \<noteq> ''.'') (split_sep p)
      in if parts = [] then [] else last parts)"

subsection \<open>The directory tree and \<^verbatim>\<open>os.walk\<close>\<close>

text \<open>
  A directory as \<^verbatim>\<open>os.walk\<close> lists it: its subdirectories (name and content) and
  the names of its other entries, both in the order in which the operating system
  returns them. The tree does not change during the run, every directory in it can
  be listed and none is a symbolic link (\<^verbatim>\<open>os.walk\<close> yields nothing for those).
\<close>

datatype fs = Dir (subdirs: "(string \<times> fs) list") (nondirs: "string list")

definition name_ok :: "string \<Rightarrow> bool" where
  \<comment> \<open>what a file system allows as the name of an entry\<close>
  "name_ok n = (n \<noteq> [] \<and> n \<noteq> ''.'' \<and> n \<noteq> ''..'' \<and> CHR ''/'' \<notin> set n)"

fun wf_fs :: "fs \<Rightarrow> bool" where
  "wf_fs (Dir subs files) =
     (list_all (\<lambda>(d, sub). name_ok d \<and> wf_fs sub) subs \<and> list_all name_ok files)"

text \<open>
  \<^verbatim>\<open>os.walk(root)\<close>, top-down: it yields \<open>(root, dirs, nondirs)\<close>, the loop body
  then rewrites \<open>dirs\<close> in place, and the walk descends into the names left in it.
  Both loops of the source rewrite \<open>dirs\<close> by a filter; \<open>keep root d\<close> is that
  filter's condition.
\<close>

fun os_walk :: "(string \<Rightarrow> string \<Rightarrow> bool) \<Rightarrow> string \<Rightarrow> fs \<Rightarrow> (string \<times> string list \<times> string list) list" where
  "os_walk keep root (Dir subs files) =
     (root, map fst subs, files) #
     concat (map (\<lambda>(d, sub). os_walk keep (path_join root d) sub)
               (filter (\<lambda>(d, sub). keep root d) subs))"

subsection \<open>\<^verbatim>\<open>build_project_tree\<close> and \<^verbatim>\<open>collect_files\<close>\<close>

definition project_tree_lines :: "regex_test \<Rightarrow> pathspec \<Rightarrow> fs \<Rightarrow> string list" where
  \<comment> \<open>the list \<^verbatim>\<open>tree\<close> when the loop of \<^verbatim>\<open>build_project_tree\<close> ends\<close>
  "project_tree_lines rx spec root_dir =
     concat (map
       (\<lambda>(root, dirs, files).
          (let rel_path = relpath root;
               level = (if rel_path = ''.'' then 0 else count_sep rel_path + 1);
               indent = replicate (4 * level) CHR '' '';
               directory = (if rel_path \<noteq> ''.'' then basename root else ''.'');
               subindent = replicate (4 * (level + 1)) CHR '' ''
           in (indent @ directory @ ''/'') #
              map (\<lambda>file. subindent @ file)
                (filter
                   (\<lambda>file.
                      (let rel_file_path = normpath (path_join (relpath root) file)
                       in \<not> match_file rx spec rel_file_path
                          \<and> path_name rel_file_path \<noteq> ''.gitignore''))
                   (sort files))))
       (os_walk
          (\<lambda>root d. \<not> match_file rx spec (normpath (path_join (relpath root) d) @ ''/''))
          ''.'' root_dir))"

definition build_project_tree :: "regex_test \<Rightarrow> pathspec \<Rightarrow> fs \<Rightarrow> string" where
  "build_project_tree rx spec root_dir = join [CHR 0x0A] (project_tree_lines rx spec root_dir)"

definition collect_files :: "regex_test \<Rightarrow> pathspec \<Rightarrow> fs \<Rightarrow> string list" where
  "collect_files rx spec root_dir =
     concat (map
       (\<lambda>(root, dirs, files).
          map (\<lambda>file. normpath (path_join (relpath root) file))
            (filter
               (\<lambda>file.
                  (let rel_file_path = normpath (path_join (relpath root) file)
                   in \<not> match_file rx spec rel_file_path
                      \<and> path_name rel_file_path \<noteq> ''.gitignore''))
               (sort files)))
       (os_walk
          (\<lambda>root d. \<not> match_file rx spec (normpath (path_join (relpath root) d) @ ''/''))
          ''.'' root_dir))"

subsection \<open>The walk as the specification words it\<close>

text \<open>
  A directory is named by the list of names that lead to it from the root; its depth
  is the length of that list and its relative path is the names joined by the
  separator, the root's being \<^verbatim>\<open>.\<close>.
\<close>

definition path_of :: "string list \<Rightarrow> string" where
  "path_of ns = (if ns = [] then ''.'' else join ''/'' ns)"

definition root_of :: "string list \<Rightarrow> string" where
  \<comment> \<open>the \<open>root\<close> that \<^verbatim>\<open>os.walk('.')\<close> yields for that directory\<close>
  "root_of ns = join ''/'' (''.'' # ns)"

definition spec_dir_kept :: "regex_test \<Rightarrow> pathspec \<Rightarrow> string list \<Rightarrow> string \<Rightarrow> bool" where
  \<comment> \<open>a subdirectory is dropped when its relative path with a trailing separator matches\<close>
  "spec_dir_kept rx spec ns d = (\<not> match_file rx spec (path_of (ns @ [d]) @ ''/''))"

definition spec_file_included :: "regex_test \<Rightarrow> pathspec \<Rightarrow> string list \<Rightarrow> string \<Rightarrow> bool" where
  \<comment> \<open>a file is listed unless it matches or is the ignore file itself\<close>
  "spec_file_included rx spec ns f =
     (\<not> match_file rx spec (path_of (ns @ [f])) \<and> f \<noteq> ''.gitignore'')"

fun spec_tree_lines :: "regex_test \<Rightarrow> pathspec \<Rightarrow> string list \<Rightarrow> fs \<Rightarrow> string list" where
  \<comment> \<open>pre-order: the line of the directory at \<open>4 * depth\<close> spaces, the lines of its
      included files in lexicographic order at \<open>4 * (depth + 1)\<close> spaces, then the
      subdirectories that are kept, each with its own subtree\<close>
  "spec_tree_lines rx spec ns (Dir subs files) =
     (replicate (4 * length ns) CHR '' '' @ (if ns = [] then ''.'' else last ns) @ ''/'') #
     map (\<lambda>f. replicate (4 * (length ns + 1)) CHR '' '' @ f)
       (filter (spec_file_included rx spec ns) (sort files)) @
     concat (map (\<lambda>(d, sub). spec_tree_lines rx spec (ns @ [d]) sub)
               (filter (\<lambda>(d, sub). spec_dir_kept rx spec ns d) subs))"

fun spec_file_list :: "regex_test \<Rightarrow> pathspec \<Rightarrow> string list \<Rightarrow> fs \<Rightarrow> string list" where
  \<comment> \<open>the same traversal, giving the relative path of each included file\<close>
  "spec_file_list rx spec ns (Dir subs files) =
     map (\<lambda>f. path_of (ns @ [f])) (filter (spec_file_included rx spec ns) (sort files)) @
     concat (map (\<lambda>(d, sub). spec_file_list rx spec (ns @ [d]) sub)
               (filter (\<lambda>(d, sub). spec_dir_kept rx spec ns d) subs))"

subsection \<open>Operations on the tree used to state results\<close>

text \<open>
  \<open>remove_dir ds t\<close> is the tree \<open>t\<close> without the directory reached by the names
  \<open>ds\<close> and without anything in it; \<open>remove_gitignore t\<close> is \<open>t\<close> without any
  file named \<^verbatim>\<open>.gitignore\<close>, at any depth.
\<close>

fun remove_dir :: "string list \<Rightarrow> fs \<Rightarrow> fs" where
  "remove_dir [] t = t"
| "remove_dir [d] (Dir subs files) = Dir (filter (\<lambda>(n, sub). n \<noteq> d) subs) files"
| "remove_dir (d # e # ds) (Dir subs files) =
     Dir (map (\<lambda>(n, sub). if n = d then (n, remove_dir (e # ds) sub) else (n, sub)) subs) files"

fun remove_gitignore :: "fs \<Rightarrow> fs" where
  "remove_gitignore (Dir subs files) =
     Dir (map (\<lambda>(n, sub). (n, remove_gitignore sub)) subs)
         (filter (\<lambda>f. f \<noteq> ''.gitignore'') files)"

text \<open>
  In the list \<^verbatim>\<open>tree\<close> the line of a directory ends with the separator and the
  line of a file does not (a file name holds no separator). \<open>file_lines\<close> keeps the
  lines of files; \<open>file_line_of p\<close> is the line that stands for the file of
  relative path \<open>p\<close>: its base name, indented by its depth.
\<close>

definition file_lines :: "string list \<Rightarrow> string list" where
  "file_lines ls = filter (\<lambda>l. \<not> endswith l ''/'') ls"

definition file_line_of :: "string \<Rightarrow> string" where
  "file_line_of p = replicate (4 * (count_sep p + 1)) CHR '' '' @ basename p"

text \<open>
  The scenario of the specification: the root holds \<^verbatim>\<open>a.txt\<close>, \<^verbatim>\<open>b.bin\<close>, an
  empty directory \<^verbatim>\<open>c\<close> and a \<^verbatim>\<open>.gitignore\<close> with the one line \<^verbatim>\<open>b.bin\<close>.
  A second tree has a directory \<^verbatim>\<open>out\<close> that the rules exclude, with a file in
  it that a negation names, and a nested \<^verbatim>\<open>.gitignore\<close>.
\<close>

definition scenario_tree :: fs where
  "scenario_tree = Dir [(''c'', Dir [] [])] [''b.bin'', ''a.txt'', ''.gitignore'']"

definition scenario_spec :: pathspec where
  "scenario_spec =
     pathspec_add (patterns_of [''b.bin'' @ [CHR 0x0A]]) (patterns_of default_ignore_patterns)"

definition nested_tree :: fs where
  "nested_tree =
     Dir [(''src'', Dir [(''out'', Dir [] [''keep.txt''])] [''m.py'', ''.gitignore'', ''a.py'']),
          (''out'', Dir [(''deep'', Dir [] [''x''])] [''keep.txt''])]
         [''z.txt'', ''.gitignore'']"

definition nested_spec :: pathspec where
  "nested_spec = patterns_of [''out/'', ''!out/keep.txt'']"

subsection \<open>\<^verbatim>\<open>is_binary_file\<close> and \<^verbatim>\<open>build_final_string\<close>\<close>

text \<open>
  What the two reads of one file return. \<open>binary_read\<close> is the outcome of
  opening the file in binary mode: the text of the exception, or the bytes of the
  file, of which \<^verbatim>\<open>read(1024)\<close> takes the first 1024. \<open>text_read\<close> is the outcome
  of opening it as text (UTF-8, undecodable bytes replaced) and calling
  \<^verbatim>\<open>readlines\<close>: the text of the exception, or the decoded lines. The two are
  separate observations, as the file is opened twice. A byte is a character, and
  the environment of a run gives the state of each path.
\<close>

record file_state =
  binary_read :: "string + string"
  text_read :: "string + string list"

type_synonym file_env = "string \<Rightarrow> file_state"

definition is_binary_file :: "file_env \<Rightarrow> string \<Rightarrow> bool" where
  "is_binary_file env file_path =
     (case binary_read (env file_path) of
        Inl e \<Rightarrow> True
      | Inr content \<Rightarrow> (let chunk = take 1024 content in CHR 0x00 \<in> set chunk))"

text \<open>
  The loop body works on the pair of the list \<^verbatim>\<open>output\<close> and the console. Its
  \<^verbatim>\<open>try\<close> block holds the read of the file and two of the prints: an exception
  raised in it, by the read or by a print, is caught with the state reached at that
  point, and the handler adds the \<^verbatim>\<open>(Could not read file: ...)\<close> item. The prints
  outside the block, the handler's among them, are not guarded: an exception raised
  there ends the run, and is the left result.
\<close>

type_synonym build_state = "string list \<times> string list"

definition try_block ::
  "console_behaviour \<Rightarrow> file_env \<Rightarrow> string \<Rightarrow> build_state \<Rightarrow> (string \<times> build_state) + build_state" where
  \<comment> \<open>the exception with the state at the raise, or the state at the end of the block\<close>
  "try_block tty env file st =
     (case st of (output, console) \<Rightarrow>
        (case text_read (env file) of
           Inl e \<Rightarrow> Inl (e, (output, console))
         | Inr lines \<Rightarrow>
             (if lines = [] then
                (let message = ''(Empty file)''
                 in (case print_warning tty message console of
                       Inl e \<Rightarrow> Inl (e, (output, console))
                     | Inr console' \<Rightarrow> Inr (output @ [message @ [CHR 0x0A]], console')))
              else
                (let truncated_content = rstrip_nl (concat (take 20 lines));
                     output' = output @ [concat lines @ [CHR 0x0A]]
                 in (case print_truncated_content tty truncated_content console of
                       Inl e \<Rightarrow> Inl (e, (output', console))
                     | Inr console' \<Rightarrow> Inr (output', console'))))))"

definition except_handler ::
  "console_behaviour \<Rightarrow> string \<Rightarrow> build_state \<Rightarrow> string + build_state" where
  "except_handler tty e st =
     (case st of (output, console) \<Rightarrow>
        (let message = ''(Could not read file: '' @ e @ '')''
         in (case print_error tty message console of
               Inl e' \<Rightarrow> Inl e'
             | Inr console' \<Rightarrow> Inr (output @ [message @ [CHR 0x0A]], console'))))"

definition build_file ::
  "console_behaviour \<Rightarrow> file_env \<Rightarrow> string \<Rightarrow> build_state \<Rightarrow> string + build_state" where
  \<comment> \<open>one round of the loop over \<^verbatim>\<open>files\<close>\<close>
  "build_file tty env file st =
     (case st of (output0, console0) \<Rightarrow>
        (case print_header tty file console0 of
           Inl e \<Rightarrow> Inl e
         | Inr console1 \<Rightarrow>
        (case print_code_block_indicator tty console1 of
           Inl e \<Rightarrow> Inl e
         | Inr console2 \<Rightarrow>
        (let header = ''### File: '' @ file @ [CHR 0x0A] @ ''### Code block below:'' @ [CHR 0x0A];
             output1 = output0 @ [header]
         in (case (if is_binary_file env file then
                     (let message = ''(Binary file omitted)''
                      in (case print_warning tty message console2 of
                            Inl e \<Rightarrow> Inl e
                          | Inr console3 \<Rightarrow> Inr (output1 @ [message @ [CHR 0x0A]], console3)))
                   else
                     (case try_block tty env file (output1, console2) of
                        Inr st' \<Rightarrow> Inr st'
                      | Inl (e, st') \<Rightarrow> except_handler tty e st')) of
               Inl e \<Rightarrow> Inl e
             | Inr (output2, console4) \<Rightarrow>
                 (case print_empty tty console4 of
                    Inl e \<Rightarrow> Inl e
                  | Inr console5 \<Rightarrow> Inr (output2, console5)))))))"

fun build_loop ::
  "console_behaviour \<Rightarrow> file_env \<Rightarrow> string list \<Rightarrow> build_state \<Rightarrow> string + build_state" where
  "build_loop tty env [] st = Inr st"
| "build_loop tty env (file # files) st =
     (case build_file tty env file st of
        Inl e \<Rightarrow> Inl e
      | Inr st' \<Rightarrow> build_loop tty env files st')"

definition build_output ::
  "console_behaviour \<Rightarrow> file_env \<Rightarrow> string \<Rightarrow> string list \<Rightarrow> string list \<Rightarrow> string + build_state" where
  \<comment> \<open>the list \<^verbatim>\<open>output\<close> and the console when the loop ends\<close>
  "build_output tty env tree files console =
     build_loop tty env files ([''Project Tree:'', tree, []], console)"

definition build_final_string ::
  "console_behaviour \<Rightarrow> file_env \<Rightarrow> string \<Rightarrow> string list \<Rightarrow> string list \<Rightarrow> string + (string \<times> string list)" where
  \<comment> \<open>the returned document, and the console\<close>
  "build_final_string tty env tree files console =
     (case build_output tty env tree files console of
        Inl e \<Rightarrow> Inl e
      | Inr (output, console') \<Rightarrow> Inr (join [CHR 0x0A] output, console'))"

text \<open>
  The header that a round builds, and what a round appends to \<^verbatim>\<open>output\<close> and
  prints when no print raises.
\<close>

definition file_header :: "string \<Rightarrow> string" where
  "file_header file = ''### File: '' @ file @ [CHR 0x0A] @ ''### Code block below:'' @ [CHR 0x0A]"

definition file_output :: "file_env \<Rightarrow> string \<Rightarrow> string list" where
  "file_output env file =
     (case build_file reliable_console env file ([], []) of
        Inr (output, console) \<Rightarrow> output
      | Inl e \<Rightarrow> [])"

definition file_console :: "file_env \<Rightarrow> string \<Rightarrow> string list" where
  "file_console env file =
     (case build_file reliable_console env file ([], []) of
        Inr (output, console) \<Rightarrow> console
      | Inl e \<Rightarrow> [])"

text \<open>
  Files for the examples. \<open>text_file s\<close> is a readable file that holds the ASCII
  text \<open>s\<close>, so that its bytes and its decoded characters are the same; reading it
  as text turns each carriage return, with the newline after it if there is one,
  into a newline, and \<^verbatim>\<open>readlines\<close> cuts after each newline.
  \<open>unreadable_file e\<close> is a file that neither open can open.
\<close>

fun universal_newlines :: "string \<Rightarrow> string" where
  "universal_newlines [] = []"
| "universal_newlines [c] = [if c = CHR 0x0D then CHR 0x0A else c]"
| "universal_newlines (c # d # cs) =
     (if c = CHR 0x0D
      then (if d = CHR 0x0A then CHR 0x0A # universal_newlines cs
            else CHR 0x0A # universal_newlines (d # cs))
      else c # universal_newlines (d # cs))"

fun split_lines :: "string \<Rightarrow> string list" where
  "split_lines [] = []"
| "split_lines (c # cs) =
     (if c = CHR 0x0A then [c] # split_lines cs
      else (case split_lines cs of [] \<Rightarrow> [[c]] | l # ls \<Rightarrow> (c # l) # ls))"

definition readlines :: "string \<Rightarrow> string list" where
  "readlines s = split_lines (universal_newlines s)"

definition text_file :: "string \<Rightarrow> file_state" where
  "text_file s = \<lparr>binary_read = Inr s, text_read = Inr (readlines s)\<rparr>"

definition unreadable_file :: "string \<Rightarrow> file_state" where
  "unreadable_file e = \<lparr>binary_read = Inl e, text_read = Inl e\<rparr>"

definition long_text :: string where
  "long_text = concat (replicate 25 (''x'' @ [CHR 0x0A]))"

definition latin_name :: string where
  \<comment> \<open>a file name with a character beyond ASCII\<close>
  "latin_name = ''caf'' @ [CHR 0xE9]"

definition demo_env :: file_env where
  "demo_env p =
     (if p = ''a.txt'' then text_file (''hello'' @ [CHR 0x0A])
      else if p = ''b.bin'' then text_file [CHR 0x68, CHR 0x00, CHR 0x69]
      else if p = ''empty'' then text_file []
      else if p = ''nl'' then text_file [CHR 0x0A]
      else if p = ''long'' then text_file long_text
      else if p = ''latin'' \<or> p = latin_name then
        \<lparr>binary_read = Inr (''caf'' @ [CHR 0xC3, CHR 0xA9, CHR 0x0A]),
         text_read = Inr [''caf'' @ [CHR 0xE9, CHR 0x0A]]\<rparr>
      else if p = ''gone'' then \<lparr>binary_read = Inr ''x'', text_read = Inl ''[Errno 2] No such file''\<rparr>
      else unreadable_file ''[Errno 13] Permission denied'')"

definition document_of :: "string + (string \<times> string list) \<Rightarrow> string option" where
  \<comment> \<open>the document that a run returns, if it returns one\<close>
  "document_of r = (case r of Inr (document, console) \<Rightarrow> Some document | Inl e \<Rightarrow> None)"

subsection \<open>Results on the pattern set\<close>

lemma check_match_file_append:
  "check_match_file rx (a @ b) file out =
     check_match_file rx b file (check_match_file rx a file out)"
  by (induction a arbitrary: out) simp_all

lemma check_match_file_positive:
  "list_all (\<lambda>p. pat_include p = Some True) ps \<Longrightarrow>
   check_match_file rx ps file out =
     (if list_ex (\<lambda>p. rx (pat_body p) file) ps then Some True else out)"
  by (induction ps arbitrary: out) auto

lemma from_lines_Inr:
  "from_lines lib lines = Inr ps \<Longrightarrow>
   ps = map (pattern_of_line (keeps_leading_blanks lib)) (filter (\<lambda>line. line \<noteq> []) lines)"
  by (induction lines arbitrary: ps) (auto split: if_splits option.splits sum.splits)

lemma default_patterns_positive:
  "list_all (\<lambda>p. pat_include p = Some True)
     (map (pattern_of_line k) (filter (\<lambda>line. line \<noteq> []) default_ignore_patterns))"
  by (cases k)
     (simp_all add: default_ignore_patterns_def pattern_of_line_def
        endswith_def startswith_def strip_def lstrip_def rstrip_def is_space_def Let_def)

lemma match_file_add_positive:
  assumes "list_all (\<lambda>p. pat_include p = Some True) b"
  shows "match_file rx (pathspec_add a b) file = (match_file rx b file \<or> match_file rx a file)"
  using assms
  by (auto simp: match_file_def pathspec_add_def check_match_file_append
      check_match_file_positive split: option.splits)

lemma load_gitignore_Inr:
  assumes "load_gitignore lib tty gi console = Inr (combined, console')"
  shows "\<exists>user_spec default_spec.
           from_lines lib (user_rules gi) = Inr user_spec
           \<and> from_lines lib default_ignore_patterns = Inr default_spec
           \<and> combined = pathspec_add user_spec default_spec"
  using assms
  by (auto simp: load_gitignore_def user_rules_def split: option.splits sum.splits if_splits)

text \<open>
  Claim C1. Whenever \<^verbatim>\<open>load_gitignore\<close> returns a matcher, that matcher excludes a
  path (a file path, or a directory path with its trailing separator) exactly when
  the built-in list excludes it or the user's list excludes it, each list resolving
  its own negations. In particular an exclusion by the built-in list stands whatever
  the user's list says, negations included.
\<close>

theorem load_gitignore_or_of_lists:
  assumes "load_gitignore lib tty gi console = Inr (combined, console')"
  shows "\<exists>user_spec default_spec.
           from_lines lib (user_rules gi) = Inr user_spec
           \<and> from_lines lib default_ignore_patterns = Inr default_spec
           \<and> (match_file rx combined path =
                 (match_file rx default_spec path \<or> match_file rx user_spec path))
           \<and> (match_file rx default_spec path \<longrightarrow> match_file rx combined path)"
proof -
  obtain user_spec default_spec where
    u: "from_lines lib (user_rules gi) = Inr user_spec" and
    d: "from_lines lib default_ignore_patterns = Inr default_spec" and
    c: "combined = pathspec_add user_spec default_spec"
    using load_gitignore_Inr [OF assms] by blast
  have "list_all (\<lambda>p. pat_include p = Some True) default_spec"
    using from_lines_Inr [OF d] default_patterns_positive by simp
  then have "match_file rx combined path =
               (match_file rx default_spec path \<or> match_file rx user_spec path)"
    by (simp add: c match_file_add_positive)
  then show ?thesis using u d by blast
qed

theorem load_gitignore_or_of_lists_witness:
  "load_gitignore strict_lib reliable_console (Some (Inr [''!build/keep.txt'' @ [CHR 0x0A]])) [] =
     Inr (pathspec_add (patterns_of [''!build/keep.txt'' @ [CHR 0x0A]])
            (patterns_of default_ignore_patterns), [])
   \<and> from_lines strict_lib [''!build/keep.txt'' @ [CHR 0x0A]]
       = Inr (patterns_of [''!build/keep.txt'' @ [CHR 0x0A]])
   \<and> from_lines strict_lib default_ignore_patterns = Inr (patterns_of default_ignore_patterns)
   \<and> \<not> match_file simple_wildmatch (patterns_of [''!build/keep.txt'' @ [CHR 0x0A]]) ''build/keep.txt''
   \<and> match_file simple_wildmatch (patterns_of default_ignore_patterns) ''build/keep.txt''
   \<and> match_file simple_wildmatch
         (pathspec_add (patterns_of [''!build/keep.txt'' @ [CHR 0x0A]])
            (patterns_of default_ignore_patterns)) ''build/keep.txt''
   \<and> load_gitignore strict_lib reliable_console (Some (Inr [''!'' @ [CHR 0x0A]])) []
       = Inl ''Invalid git pattern''"
proof -
  let ?lines = "[''!build/keep.txt'' @ [CHR 0x0A]]"
  let ?gi = "Some (Inr ?lines) :: gitignore_state"
  have h: "load_gitignore strict_lib reliable_console ?gi [] =
     Inr (pathspec_add (patterns_of ?lines) (patterns_of default_ignore_patterns), [])"
    by code_simp
  have e1: "from_lines strict_lib ?lines = Inr (patterns_of ?lines)" by code_simp
  have e2: "from_lines strict_lib default_ignore_patterns = Inr (patterns_of default_ignore_patterns)"
    by code_simp
  have u: "\<not> match_file simple_wildmatch (patterns_of ?lines) ''build/keep.txt''"
    by code_simp
  have r: "load_gitignore strict_lib reliable_console (Some (Inr [''!'' @ [CHR 0x0A]])) []
       = Inl ''Invalid git pattern''"
    by code_simp
  obtain us ds where
    a: "from_lines strict_lib (user_rules ?gi) = Inr us"
       "from_lines strict_lib default_ignore_patterns = Inr ds"
       "match_file simple_wildmatch
          (pathspec_add (patterns_of ?lines) (patterns_of default_ignore_patterns)) ''build/keep.txt''
        = (match_file simple_wildmatch ds ''build/keep.txt''
           \<or> match_file simple_wildmatch us ''build/keep.txt'')"
    using load_gitignore_or_of_lists [OF h, of simple_wildmatch "''build/keep.txt''"] by blast
  have ds: "ds = patterns_of default_ignore_patterns" using a(2) e2 by simp
  have us: "us = patterns_of ?lines" using a(1) e1 by (simp add: user_rules_def)
  have d: "match_file simple_wildmatch (patterns_of default_ignore_patterns) ''build/keep.txt''"
    by code_simp
  show ?thesis using h e1 e2 u d r a(3) ds us by blast
qed

subsection \<open>Paths of the directories that the walk visits\<close>

lemma split_sep_nonempty: "split_sep s \<noteq> []"
  by (induction s) (auto split: list.splits)

lemma split_sep_name: "CHR ''/'' \<notin> set n \<Longrightarrow> split_sep n = [n]"
  by (induction n) auto

lemma split_sep_append:
  "CHR ''/'' \<notin> set a \<Longrightarrow> split_sep (a @ CHR ''/'' # b) = a # split_sep b"
  by (induction a) auto

lemma join_snoc: "xs \<noteq> [] \<Longrightarrow> join sep (xs @ [d]) = join sep xs @ sep @ d"
  by (induction sep xs rule: join.induct) auto

lemma join_Cons: "xs \<noteq> [] \<Longrightarrow> join sep (x # xs) = x @ sep @ join sep xs"
  by (cases xs) auto

lemma split_sep_join:
  "xs \<noteq> [] \<Longrightarrow> list_all (\<lambda>x. CHR ''/'' \<notin> set x) xs \<Longrightarrow> split_sep (join ''/'' xs) = xs"
proof (induction xs)
  case Nil
  then show ?case by simp
next
  case (Cons x xs)
  show ?case
  proof (cases xs)
    case Nil
    with Cons.prems show ?thesis by (simp add: split_sep_name)
  next
    case (Cons y ys)
    with Cons.prems Cons.IH show ?thesis
      using split_sep_append [of x "join ''/'' xs"] by simp
  qed
qed

lemma foldl_normpath_names:
  "list_all name_ok ns \<Longrightarrow> foldl (normpath_step 0) acc ns = acc @ ns"
  by (induction ns arbitrary: acc) (auto simp: normpath_step_def name_ok_def)

lemma name_ok_no_sep: "list_all name_ok ns \<Longrightarrow> list_all (\<lambda>x. CHR ''/'' \<notin> set x) ns"
  by (induction ns) (auto simp: name_ok_def)

lemma join_names_nonempty: "ns \<noteq> [] \<Longrightarrow> list_all name_ok ns \<Longrightarrow> join ''/'' ns \<noteq> []"
  by (cases ns; cases "tl ns") (auto simp: name_ok_def)

lemma join_names_hd: "ns \<noteq> [] \<Longrightarrow> list_all name_ok ns \<Longrightarrow> hd (join ''/'' ns) \<noteq> CHR ''/''"
  by (cases ns; cases "tl ns"; cases "hd ns") (auto simp: name_ok_def)

lemma name_ok_last: "name_ok n \<Longrightarrow> last n \<noteq> CHR ''/''"
  by (metis last_in_set name_ok_def)

lemma endswith_single: "endswith s [c] \<longleftrightarrow> s \<noteq> [] \<and> last s = c"
  by (cases s rule: rev_cases) (auto simp: endswith_def)

lemma join_names_last: "ns \<noteq> [] \<Longrightarrow> list_all name_ok ns \<Longrightarrow> last (join ''/'' ns) \<noteq> CHR ''/''"
proof (induction ns)
  case Nil then show ?case by simp
next
  case (Cons n ns)
  show ?case
  proof (cases ns)
    case Nil
    with Cons.prems show ?thesis by (simp add: name_ok_last)
  next
    case (Cons m ms)
    with Cons.prems Cons.IH join_names_nonempty [of ns] show ?thesis by simp
  qed
qed

lemma normpath_names:
  assumes "ns \<noteq> []" "list_all name_ok ns"
  shows "normpath (join ''/'' ns) = join ''/'' ns"
proof -
  have ne: "join ''/'' ns \<noteq> []" using assms by (rule join_names_nonempty)
  have hd: "hd (join ''/'' ns) \<noteq> CHR ''/''" using assms by (rule join_names_hd)
  have nsl: "\<not> startswith (join ''/'' ns) ''/''"
    using ne hd by (cases "join ''/'' ns") (auto simp: startswith_def)
  have sp: "split_sep (join ''/'' ns) = ns"
    using assms by (simp add: split_sep_join name_ok_no_sep)
  show ?thesis
    using ne nsl sp assms by (simp add: normpath_def Let_def foldl_normpath_names)
qed

lemma normpath_dot_names:
  assumes "list_all name_ok ns"
  shows "normpath (join ''/'' (''.'' # ns)) = path_of ns"
proof -
  let ?p = "join ''/'' (''.'' # ns)"
  have sp: "split_sep ?p = ''.'' # ns"
    using assms by (intro split_sep_join) (auto simp: name_ok_no_sep)
  have hdp: "?p \<noteq> [] \<and> hd ?p = CHR ''.''"
    by (cases ns) auto
  then have nsl: "\<not> startswith ?p ''/''"
    by (cases ?p) (auto simp: startswith_def)
  have fl: "foldl (normpath_step 0) [] (''.'' # ns) = ns"
    using assms by (simp add: foldl_normpath_names) (simp add: normpath_step_def)
  have "normpath ?p = (if join ''/'' ns = [] then ''.'' else join ''/'' ns)"
    using hdp nsl by (simp add: normpath_def Let_def sp fl del: join.simps foldl.simps)
  moreover have "join ''/'' ns = [] \<longleftrightarrow> ns = []"
    using assms join_names_nonempty [of ns] by auto
  ultimately show ?thesis by (simp add: path_of_def)
qed

lemma path_of_dot_iff: "list_all name_ok ns \<Longrightarrow> path_of ns = ''.'' \<longleftrightarrow> ns = []"
proof (cases ns)
  case Nil then show ?thesis by (simp add: path_of_def)
next
  case (Cons m ms)
  assume a: "list_all name_ok ns"
  have "split_sep (join ''/'' ns) = ns"
    using a Cons split_sep_join [of ns] name_ok_no_sep [of ns] by simp
  then have "split_sep (path_of ns) = ns"
    using Cons by (simp add: path_of_def)
  moreover have "split_sep ''.'' = [''.'']" by simp
  ultimately show ?thesis using a Cons by (auto simp: name_ok_def)
qed

lemma relpath_root:
  assumes "list_all name_ok ns"
  shows "relpath (join ''/'' (''.'' # ns)) = path_of ns"
proof (cases "ns = []")
  case True
  then show ?thesis
    using normpath_dot_names [OF assms] by (simp add: relpath_def path_of_def)
next
  case False
  have sp: "split_sep (join ''/'' ns) = ns"
    using assms False by (simp add: split_sep_join name_ok_no_sep)
  have flt: "filter (\<lambda>x. x \<noteq> [] \<and> x \<noteq> ''.'') ns = ns"
    using assms by (induction ns) (auto simp: name_ok_def)
  show ?thesis
    using False normpath_dot_names [OF assms]
    by (simp add: relpath_def path_of_def sp flt Let_def)
qed

lemma path_join_names:
  assumes "xs \<noteq> []" "last (join ''/'' xs) \<noteq> CHR ''/''" "join ''/'' xs \<noteq> []" "name_ok d"
  shows "path_join (join ''/'' xs) d = join ''/'' (xs @ [d])"
proof -
  have "\<not> startswith d ''/''"
    using assms(4) by (cases d) (auto simp: startswith_def name_ok_def)
  moreover have "\<not> endswith (join ''/'' xs) ''/''"
    using assms(2,3) by (simp add: endswith_single)
  ultimately show ?thesis
    using assms by (simp add: path_join_def join_snoc)
qed


lemma root_of_Nil: "root_of [] = ''.''"
  by (simp add: root_of_def)

lemma relpath_root_of: "list_all name_ok ns \<Longrightarrow> relpath (root_of ns) = path_of ns"
  by (simp add: root_of_def relpath_root del: join.simps)

lemma path_join_root_of:
  assumes "list_all name_ok ns" "name_ok d"
  shows "path_join (root_of ns) d = root_of (ns @ [d])"
proof -
  have "last (join ''/'' (''.'' # ns)) \<noteq> CHR ''/''"
  proof (cases "ns = []")
    case True then show ?thesis by simp
  next
    case False
    then have "last (join ''/'' (''.'' # ns)) = last (join ''/'' ns)"
      using join_names_nonempty [OF False assms(1)] by (simp add: join_Cons)
    then show ?thesis using join_names_last [OF False assms(1)] by simp
  qed
  moreover have "join ''/'' (''.'' # ns) \<noteq> []" by (cases ns) auto
  ultimately show ?thesis
    using path_join_names [of "''.'' # ns" d] assms(2) by (simp add: root_of_def del: join.simps)
qed

lemma normpath_child:
  assumes "list_all name_ok ns" "name_ok d"
  shows "normpath (path_join (path_of ns) d) = path_of (ns @ [d])"
proof (cases "ns = []")
  case True
  have "path_join ''.'' d = join ''/'' (''.'' # [d])"
    using path_join_names [of "[''.'']" d] assms(2) by simp
  then show ?thesis
    using True normpath_dot_names [of "[d]"] assms(2) by (simp add: path_of_def)
next
  case False
  have "path_join (join ''/'' ns) d = join ''/'' (ns @ [d])"
    using path_join_names [of ns d] False assms
    by (simp add: join_names_last join_names_nonempty)
  then show ?thesis
    using False normpath_names [of "ns @ [d]"] assms by (simp add: path_of_def)
qed

lemma basename_append: "CHR ''/'' \<notin> set n \<Longrightarrow> basename (a @ CHR ''/'' # n) = n"
proof -
  assume a: "CHR ''/'' \<notin> set n"
  have "takeWhile (\<lambda>c. c \<noteq> CHR ''/'') (rev n @ CHR ''/'' # rev a) = rev n"
    using a by (subst takeWhile_append2) auto
  then show ?thesis by (simp add: basename_def)
qed

lemma basename_root_of:
  assumes "ns \<noteq> []" "list_all name_ok ns"
  shows "basename (root_of ns) = last ns"
proof -
  obtain ms n where ns: "ns = ms @ [n]" using assms(1) by (cases ns rule: rev_cases) auto
  have "root_of ns = join ''/'' (''.'' # ms) @ ''/'' @ n"
    using join_snoc [of "''.'' # ms" "''/''" n] by (simp add: root_of_def ns del: join.simps)
  moreover have "CHR ''/'' \<notin> set n" using assms(2) ns by (simp add: name_ok_def)
  ultimately show ?thesis using basename_append [of n] by (simp add: ns)
qed

lemma count_sep_append: "count_sep (a @ b) = count_sep a + count_sep b"
  by (simp add: count_sep_def)

lemma count_sep_name: "name_ok n \<Longrightarrow> count_sep n = 0"
  by (auto simp: count_sep_def name_ok_def filter_empty_conv)

lemma count_sep_join:
  "ns \<noteq> [] \<Longrightarrow> list_all name_ok ns \<Longrightarrow> count_sep (join ''/'' ns) + 1 = length ns"
proof (induction ns)
  case Nil then show ?case by simp
next
  case (Cons n ns)
  show ?case
  proof (cases "ns = []")
    case True with Cons.prems show ?thesis by (simp add: count_sep_name)
  next
    case False
    have "count_sep (CHR ''/'' # join ''/'' ns) = Suc (count_sep (join ''/'' ns))"
      by (simp add: count_sep_def)
    with False Cons show ?thesis by (simp add: join_Cons count_sep_append count_sep_name)
  qed
qed

lemma path_name_path_of:
  assumes "ns \<noteq> []" "list_all name_ok ns"
  shows "path_name (path_of ns) = last ns"
proof -
  have sp: "split_sep (join ''/'' ns) = ns"
    using assms by (simp add: split_sep_join name_ok_no_sep)
  have flt: "filter (\<lambda>x. x \<noteq> [] \<and> x \<noteq> ''.'') ns = ns"
    using assms(2) by (induction ns) (auto simp: name_ok_def)
  show ?thesis using assms(1) by (simp add: path_name_def path_of_def sp flt)
qed


lemma concat_map_walk:
  "concat (map F (x # concat (map g ys))) = F x @ concat (map (\<lambda>y. concat (map F (g y))) ys)"
  by (induction ys) simp_all

lemma wf_fs_subs:
  "wf_fs (Dir subs files) \<Longrightarrow> (d, sub) \<in> set subs \<Longrightarrow> name_ok d \<and> wf_fs sub"
  by (auto simp: list_all_iff)

lemma wf_fs_files: "wf_fs (Dir subs files) \<Longrightarrow> f \<in> set files \<Longrightarrow> name_ok f"
  by (auto simp: list_all_iff)

lemma tree_lines_at:
  fixes rx :: regex_test and spec :: pathspec
  defines "K \<equiv> (\<lambda>root d. \<not> match_file rx spec (normpath (path_join (relpath root) d) @ ''/''))"
  defines "F \<equiv> (\<lambda>(root, dirs :: string list, files).
          (let rel_path = relpath root;
               level = (if rel_path = ''.'' then 0 else count_sep rel_path + 1);
               indent = replicate (4 * level) CHR '' '';
               directory = (if rel_path \<noteq> ''.'' then basename root else ''.'');
               subindent = replicate (4 * (level + 1)) CHR '' ''
           in (indent @ directory @ ''/'') #
              map (\<lambda>file. subindent @ file)
                (filter
                   (\<lambda>file.
                      (let rel_file_path = normpath (path_join (relpath root) file)
                       in \<not> match_file rx spec rel_file_path
                          \<and> path_name rel_file_path \<noteq> ''.gitignore''))
                   (sort files))))"
  shows "wf_fs t \<Longrightarrow> list_all name_ok ns \<Longrightarrow>
         concat (map F (os_walk K (root_of ns) t)) = spec_tree_lines rx spec ns t"
proof (induction t arbitrary: ns)
  case (Dir subs files)
  note wf = \<open>wf_fs (Dir subs files)\<close> and ok = \<open>list_all name_ok ns\<close>
  have rel: "relpath (root_of ns) = path_of ns" using ok by (rule relpath_root_of)
  have lvl: "(if path_of ns = ''.'' then 0 else count_sep (path_of ns) + 1) = length ns"
    using ok count_sep_join [of ns] by (auto simp: path_of_dot_iff) (simp add: path_of_def)
  have dir: "(if path_of ns \<noteq> ''.'' then basename (root_of ns) else ''.'')
             = (if ns = [] then ''.'' else last ns)"
    using ok by (auto simp: path_of_dot_iff basename_root_of)
  have files: "filter (\<lambda>file. \<not> match_file rx spec (normpath (path_join (path_of ns) file))
                          \<and> path_name (normpath (path_join (path_of ns) file)) \<noteq> ''.gitignore'')
                   (sort files)
               = filter (spec_file_included rx spec ns) (sort files)"
  proof (rule filter_cong [OF refl])
    fix f assume "f \<in> set (sort files)"
    then have f: "name_ok f" using wf_fs_files [OF wf, of f] by simp
    have "path_name (path_of (ns @ [f])) = f"
      using path_name_path_of [of "ns @ [f]"] ok f by simp
    then show "(\<not> match_file rx spec (normpath (path_join (path_of ns) f))
                 \<and> path_name (normpath (path_join (path_of ns) f)) \<noteq> ''.gitignore'')
               = spec_file_included rx spec ns f"
      using ok f by (simp add: normpath_child spec_file_included_def)
  qed
  have head: "F (root_of ns, map fst subs, files) =
     (replicate (4 * length ns) CHR '' '' @ (if ns = [] then ''.'' else last ns) @ ''/'') #
     map (\<lambda>f. replicate (4 * (length ns + 1)) CHR '' '' @ f)
       (filter (spec_file_included rx spec ns) (sort files))"
    unfolding F_def by (simp only: prod.case Let_def rel lvl dir files)
  have keep: "filter (\<lambda>(d, sub). K (root_of ns) d) subs = filter (\<lambda>(d, sub). spec_dir_kept rx spec ns d) subs"
  proof (rule filter_cong [OF refl])
    fix x assume x: "x \<in> set subs"
    obtain d sub where xd: "x = (d, sub)" by (cases x)
    have "name_ok d" using wf_fs_subs [OF wf, of d sub] x xd by simp
    then show "(case x of (d, sub) \<Rightarrow> K (root_of ns) d) = (case x of (d, sub) \<Rightarrow> spec_dir_kept rx spec ns d)"
      using ok by (simp add: xd K_def rel normpath_child spec_dir_kept_def)
  qed
  have rec: "map (\<lambda>y. concat (map F (case y of (d, sub) \<Rightarrow> os_walk K (path_join (root_of ns) d) sub)))
               (filter (\<lambda>(d, sub). spec_dir_kept rx spec ns d) subs)
             = map (\<lambda>(d, sub). spec_tree_lines rx spec (ns @ [d]) sub)
               (filter (\<lambda>(d, sub). spec_dir_kept rx spec ns d) subs)"
  proof (rule map_cong [OF refl])
    fix x assume x: "x \<in> set (filter (\<lambda>(d, sub). spec_dir_kept rx spec ns d) subs)"
    obtain d sub where xd: "x = (d, sub)" by (cases x)
    have mem: "(d, sub) \<in> set subs" using x xd by simp
    have d: "name_ok d" "wf_fs sub" using wf_fs_subs [OF wf mem] by simp_all
    from mem have "concat (map F (os_walk K (root_of (ns @ [d])) sub)) = spec_tree_lines rx spec (ns @ [d]) sub"
      using Dir.IH [of "(d, sub)" sub "ns @ [d]"] d ok by simp
    then show "concat (map F (case x of (d, sub) \<Rightarrow> os_walk K (path_join (root_of ns) d) sub))
               = (case x of (d, sub) \<Rightarrow> spec_tree_lines rx spec (ns @ [d]) sub)"
      using ok d by (simp add: xd path_join_root_of)
  qed
  show ?case
    by (simp only: os_walk.simps concat_map_walk head keep rec spec_tree_lines.simps append_Cons)
qed

subsection \<open>The two loops and the structural walk\<close>

lemma file_list_at:
  fixes rx :: regex_test and spec :: pathspec
  defines "K \<equiv> (\<lambda>root d. \<not> match_file rx spec (normpath (path_join (relpath root) d) @ ''/''))"
  defines "G \<equiv> (\<lambda>(root, dirs :: string list, files).
          map (\<lambda>file. normpath (path_join (relpath root) file))
            (filter
               (\<lambda>file.
                  (let rel_file_path = normpath (path_join (relpath root) file)
                   in \<not> match_file rx spec rel_file_path
                      \<and> path_name rel_file_path \<noteq> ''.gitignore''))
               (sort files)))"
  shows "wf_fs t \<Longrightarrow> list_all name_ok ns \<Longrightarrow>
         concat (map G (os_walk K (root_of ns) t)) = spec_file_list rx spec ns t"
proof (induction t arbitrary: ns)
  case (Dir subs files)
  note wf = \<open>wf_fs (Dir subs files)\<close> and ok = \<open>list_all name_ok ns\<close>
  have rel: "relpath (root_of ns) = path_of ns" using ok by (rule relpath_root_of)
  have files: "filter (\<lambda>file. \<not> match_file rx spec (normpath (path_join (path_of ns) file))
                          \<and> path_name (normpath (path_join (path_of ns) file)) \<noteq> ''.gitignore'')
                   (sort files)
               = filter (spec_file_included rx spec ns) (sort files)"
  proof (rule filter_cong [OF refl])
    fix f assume "f \<in> set (sort files)"
    then have f: "name_ok f" using wf_fs_files [OF wf, of f] by simp
    have "path_name (path_of (ns @ [f])) = f"
      using path_name_path_of [of "ns @ [f]"] ok f by simp
    then show "(\<not> match_file rx spec (normpath (path_join (path_of ns) f))
                 \<and> path_name (normpath (path_join (path_of ns) f)) \<noteq> ''.gitignore'')
               = spec_file_included rx spec ns f"
      using ok f by (simp add: normpath_child spec_file_included_def)
  qed
  have paths: "map (\<lambda>file. normpath (path_join (path_of ns) file))
                 (filter (spec_file_included rx spec ns) (sort files))
               = map (\<lambda>f. path_of (ns @ [f])) (filter (spec_file_included rx spec ns) (sort files))"
  proof (rule map_cong [OF refl])
    fix f assume "f \<in> set (filter (spec_file_included rx spec ns) (sort files))"
    then have "name_ok f" using wf_fs_files [OF wf, of f] by simp
    then show "normpath (path_join (path_of ns) f) = path_of (ns @ [f])"
      using ok by (simp add: normpath_child)
  qed
  have head: "G (root_of ns, map fst subs, files) =
     map (\<lambda>f. path_of (ns @ [f])) (filter (spec_file_included rx spec ns) (sort files))"
    unfolding G_def by (simp only: prod.case Let_def rel files paths)
  have keep: "filter (\<lambda>(d, sub). K (root_of ns) d) subs = filter (\<lambda>(d, sub). spec_dir_kept rx spec ns d) subs"
  proof (rule filter_cong [OF refl])
    fix x assume x: "x \<in> set subs"
    obtain d sub where xd: "x = (d, sub)" by (cases x)
    have "name_ok d" using wf_fs_subs [OF wf, of d sub] x xd by simp
    then show "(case x of (d, sub) \<Rightarrow> K (root_of ns) d) = (case x of (d, sub) \<Rightarrow> spec_dir_kept rx spec ns d)"
      using ok by (simp add: xd K_def rel normpath_child spec_dir_kept_def)
  qed
  have rec: "map (\<lambda>y. concat (map G (case y of (d, sub) \<Rightarrow> os_walk K (path_join (root_of ns) d) sub)))
               (filter (\<lambda>(d, sub). spec_dir_kept rx spec ns d) subs)
             = map (\<lambda>(d, sub). spec_file_list rx spec (ns @ [d]) sub)
               (filter (\<lambda>(d, sub). spec_dir_kept rx spec ns d) subs)"
  proof (rule map_cong [OF refl])
    fix x assume x: "x \<in> set (filter (\<lambda>(d, sub). spec_dir_kept rx spec ns d) subs)"
    obtain d sub where xd: "x = (d, sub)" by (cases x)
    have mem: "(d, sub) \<in> set subs" using x xd by simp
    have d: "name_ok d" "wf_fs sub" using wf_fs_subs [OF wf mem] by simp_all
    from mem have "concat (map G (os_walk K (root_of (ns @ [d])) sub)) = spec_file_list rx spec (ns @ [d]) sub"
      using Dir.IH [of "(d, sub)" sub "ns @ [d]"] d ok by simp
    then show "concat (map G (case x of (d, sub) \<Rightarrow> os_walk K (path_join (root_of ns) d) sub))
               = (case x of (d, sub) \<Rightarrow> spec_file_list rx spec (ns @ [d]) sub)"
      using ok d by (simp add: xd path_join_root_of)
  qed
  show ?case
    by (simp only: os_walk.simps concat_map_walk head keep rec spec_file_list.simps)
qed

lemma project_tree_lines_spec:
  "wf_fs t \<Longrightarrow> project_tree_lines rx spec t = spec_tree_lines rx spec [] t"
  using tree_lines_at [of t "[]" rx spec]
  by (simp add: project_tree_lines_def root_of_Nil)

lemma collect_files_spec:
  "wf_fs t \<Longrightarrow> collect_files rx spec t = spec_file_list rx spec [] t"
  using file_list_at [of t "[]" rx spec]
  by (simp add: collect_files_def root_of_Nil)

subsection \<open>Pruned directories\<close>

lemma wf_remove_dir: "wf_fs t \<Longrightarrow> wf_fs (remove_dir ds t)"
proof (induction ds t rule: remove_dir.induct)
  case (1 t) then show ?case by simp
next
  case (2 d subs files)
  then show ?case by (auto simp: list_all_iff)
next
  case (3 d e ds subs files)
  then show ?case by (auto simp: list_all_iff split: if_splits)
qed

lemma spec_tree_remove_dir:
  "ds \<noteq> [] \<Longrightarrow> match_file rx spec (path_of (ns @ ds) @ ''/'') \<Longrightarrow>
   spec_tree_lines rx spec ns (remove_dir ds t) = spec_tree_lines rx spec ns t"
proof (induction ds t arbitrary: ns rule: remove_dir.induct)
  case (1 t) then show ?case by simp
next
  case (2 d subs files)
  have "filter (\<lambda>(n, sub). spec_dir_kept rx spec ns n) (filter (\<lambda>(n, sub). n \<noteq> d) subs)
        = filter (\<lambda>(n, sub). spec_dir_kept rx spec ns n) subs"
    using 2(2) by (auto simp: spec_dir_kept_def intro!: filter_cong)
  then show ?case by simp
next
  case (3 d e ds subs files)
  let ?g = "\<lambda>(n, sub). if n = d then (n, remove_dir (e # ds) sub) else (n, sub)"
  have flt: "filter (\<lambda>(n, sub). spec_dir_kept rx spec ns n) (map ?g subs)
        = map ?g (filter (\<lambda>(n, sub). spec_dir_kept rx spec ns n) subs)"
    by (induction subs) (auto split: if_splits)
  have "map (\<lambda>(n, sub). spec_tree_lines rx spec (ns @ [n]) sub)
          (map ?g (filter (\<lambda>(n, sub). spec_dir_kept rx spec ns n) subs))
        = map (\<lambda>(n, sub). spec_tree_lines rx spec (ns @ [n]) sub)
          (filter (\<lambda>(n, sub). spec_dir_kept rx spec ns n) subs)"
  proof (simp only: map_map, rule map_cong [OF refl])
    fix x assume x: "x \<in> set (filter (\<lambda>(n, sub). spec_dir_kept rx spec ns n) subs)"
    obtain n sub where xd: "x = (n, sub)" by (cases x)
    have mem: "(n, sub) \<in> set subs" using x xd by simp
    show "((\<lambda>(n, sub). spec_tree_lines rx spec (ns @ [n]) sub) \<circ> ?g) x =
          (case x of (n, sub) \<Rightarrow> spec_tree_lines rx spec (ns @ [n]) sub)"
    proof (cases "n = d")
      case True
      have "spec_tree_lines rx spec (ns @ [d]) (remove_dir (e # ds) sub)
            = spec_tree_lines rx spec (ns @ [d]) sub"
        using "3.IH" [of "(n, sub)" n sub "ns @ [d]"] mem True "3.prems" by simp
      then show ?thesis using True by (simp add: xd)
    next
      case False
      then show ?thesis by (simp add: xd)
    qed
  qed
  then show ?case by (simp only: remove_dir.simps spec_tree_lines.simps flt)
qed

lemma spec_files_remove_dir:
  "ds \<noteq> [] \<Longrightarrow> match_file rx spec (path_of (ns @ ds) @ ''/'') \<Longrightarrow>
   spec_file_list rx spec ns (remove_dir ds t) = spec_file_list rx spec ns t"
proof (induction ds t arbitrary: ns rule: remove_dir.induct)
  case (1 t) then show ?case by simp
next
  case (2 d subs files)
  have "filter (\<lambda>(n, sub). spec_dir_kept rx spec ns n) (filter (\<lambda>(n, sub). n \<noteq> d) subs)
        = filter (\<lambda>(n, sub). spec_dir_kept rx spec ns n) subs"
    using 2(2) by (auto simp: spec_dir_kept_def intro!: filter_cong)
  then show ?case by simp
next
  case (3 d e ds subs files)
  let ?g = "\<lambda>(n, sub). if n = d then (n, remove_dir (e # ds) sub) else (n, sub)"
  have flt: "filter (\<lambda>(n, sub). spec_dir_kept rx spec ns n) (map ?g subs)
        = map ?g (filter (\<lambda>(n, sub). spec_dir_kept rx spec ns n) subs)"
    by (induction subs) (auto split: if_splits)
  have "map (\<lambda>(n, sub). spec_file_list rx spec (ns @ [n]) sub)
          (map ?g (filter (\<lambda>(n, sub). spec_dir_kept rx spec ns n) subs))
        = map (\<lambda>(n, sub). spec_file_list rx spec (ns @ [n]) sub)
          (filter (\<lambda>(n, sub). spec_dir_kept rx spec ns n) subs)"
  proof (simp only: map_map, rule map_cong [OF refl])
    fix x assume x: "x \<in> set (filter (\<lambda>(n, sub). spec_dir_kept rx spec ns n) subs)"
    obtain n sub where xd: "x = (n, sub)" by (cases x)
    have mem: "(n, sub) \<in> set subs" using x xd by simp
    show "((\<lambda>(n, sub). spec_file_list rx spec (ns @ [n]) sub) \<circ> ?g) x =
          (case x of (n, sub) \<Rightarrow> spec_file_list rx spec (ns @ [n]) sub)"
    proof (cases "n = d")
      case True
      have "spec_file_list rx spec (ns @ [d]) (remove_dir (e # ds) sub)
            = spec_file_list rx spec (ns @ [d]) sub"
        using "3.IH" [of "(n, sub)" n sub "ns @ [d]"] mem True "3.prems" by simp
      then show ?thesis using True by (simp add: xd)
    next
      case False
      then show ?thesis by (simp add: xd)
    qed
  qed
  then show ?case by (simp only: remove_dir.simps spec_file_list.simps flt)
qed


lemma split_sep_append_sep:
  "split_sep (a @ CHR ''/'' # b) = split_sep a @ split_sep b"
proof (induction a)
  case Nil show ?case by simp
next
  case (Cons c a)
  obtain w ws where "split_sep a = w # ws"
    using split_sep_nonempty [of a] by (cases "split_sep a") auto
  with Cons show ?case by simp
qed

lemma startswithD: "startswith s p \<Longrightarrow> \<exists>r. s = p @ r"
  by (metis append_take_drop_id startswith_def)

lemma path_prefix_components:
  assumes "list_all name_ok qs" "list_all name_ok ds" "ds \<noteq> []" "qs \<noteq> []"
    and "startswith (path_of qs) (path_of ds @ ''/'')"
  shows "length ds < length qs \<and> ds = take (length ds) qs"
proof -
  obtain r where r: "join ''/'' qs = join ''/'' ds @ CHR ''/'' # r"
    using startswithD [OF assms(5)] assms(3,4) by (auto simp: path_of_def)
  have "split_sep (join ''/'' qs) = qs"
    using assms(1,4) by (simp add: split_sep_join name_ok_no_sep)
  moreover have "split_sep (join ''/'' ds) = ds"
    using assms(2,3) by (simp add: split_sep_join name_ok_no_sep)
  ultimately have "qs = ds @ split_sep r"
    using r split_sep_append_sep [of "join ''/'' ds" r] by simp
  then show ?thesis
    using split_sep_nonempty [of r] by (cases "split_sep r") auto
qed

lemma spec_file_list_shape:
  "wf_fs t \<Longrightarrow> p \<in> set (spec_file_list rx spec ns t) \<Longrightarrow>
   \<exists>ms f. p = path_of (ns @ ms @ [f]) \<and> list_all name_ok (ms @ [f])
      \<and> f \<noteq> ''.gitignore'' \<and> \<not> match_file rx spec p
      \<and> (\<forall>k<length ms. \<not> match_file rx spec (path_of (ns @ take (Suc k) ms) @ ''/''))"
proof (induction t arbitrary: ns)
  case (Dir subs files)
  note wf = \<open>wf_fs (Dir subs files)\<close>
  from Dir.prems(2) consider
    (here) f where "f \<in> set files" "spec_file_included rx spec ns f" "p = path_of (ns @ [f])"
  | (below) d sub where "(d, sub) \<in> set subs" "spec_dir_kept rx spec ns d"
                      "p \<in> set (spec_file_list rx spec (ns @ [d]) sub)"
    by auto
  then show ?case
  proof cases
    case here
    have "name_ok f" using wf_fs_files [OF wf here(1)] .
    with here show ?thesis
      by (intro exI [of _ "[]"] exI [of _ f]) (simp add: spec_file_included_def)
  next
    case below
    have d: "name_ok d" "wf_fs sub" using wf_fs_subs [OF wf below(1)] by simp_all
    obtain ms f where mf: "p = path_of ((ns @ [d]) @ ms @ [f])" "list_all name_ok (ms @ [f])"
      "f \<noteq> ''.gitignore''" "\<not> match_file rx spec p"
      "\<forall>k<length ms. \<not> match_file rx spec (path_of ((ns @ [d]) @ take (Suc k) ms) @ ''/'')"
      using Dir.IH [of "(d, sub)" sub "ns @ [d]"] below d by auto
    have "\<forall>k<length (d # ms). \<not> match_file rx spec (path_of (ns @ take (Suc k) (d # ms)) @ ''/'')"
    proof (intro allI impI)
      fix k assume k: "k < length (d # ms)"
      show "\<not> match_file rx spec (path_of (ns @ take (Suc k) (d # ms)) @ ''/'')"
      proof (cases k)
        case 0
        then show ?thesis using below(2) by (simp add: spec_dir_kept_def)
      next
        case (Suc k')
        then show ?thesis using mf(5) k by simp
      qed
    qed
    with mf d show ?thesis
      by (intro exI [of _ "d # ms"] exI [of _ f]) simp
  qed
qed

lemma spec_file_list_not_inside:
  assumes "wf_fs t" "list_all name_ok ds" "ds \<noteq> []"
    and "match_file rx spec (path_of ds @ ''/'')"
    and "p \<in> set (spec_file_list rx spec [] t)"
  shows "\<not> startswith p (path_of ds @ ''/'')"
proof
  assume sw: "startswith p (path_of ds @ ''/'')"
  obtain ms f where mf: "p = path_of (ms @ [f])" "list_all name_ok (ms @ [f])"
      "\<forall>k<length ms. \<not> match_file rx spec (path_of (take (Suc k) ms) @ ''/'')"
    using spec_file_list_shape [OF assms(1,5)] by auto
  have pc: "length ds < length (ms @ [f]) \<and> ds = take (length ds) (ms @ [f])"
    using path_prefix_components [of "ms @ [f]" ds] mf(1,2) assms(2,3) sw
    by (simp del: take_append)
  then have le: "length ds \<le> length ms" by simp
  then have tk: "ds = take (length ds) ms" using pc by simp
  obtain k where k: "length ds = Suc k" using assms(3) by (cases ds) auto
  with le tk mf(3) have "\<not> match_file rx spec (path_of ds @ ''/'')"
    by (metis Suc_le_lessD)
  with assms(4) show False by simp
qed

subsection \<open>Ignore files and the lines of files\<close>

lemma wf_remove_gitignore: "wf_fs t \<Longrightarrow> wf_fs (remove_gitignore t)"
  by (induction t) (auto simp: list_all_iff)

lemma included_without_gitignore:
  "filter (spec_file_included rx spec ns) (sort (filter (\<lambda>f. f \<noteq> ''.gitignore'') files))
   = filter (spec_file_included rx spec ns) (sort files)"
proof -
  have "sort (filter (\<lambda>f. f \<noteq> ''.gitignore'') files) = filter (\<lambda>f. f \<noteq> ''.gitignore'') (sort files)"
    by (simp add: filter_sort)
  then show ?thesis
    by (auto simp: spec_file_included_def intro!: filter_cong)
qed

lemma kept_map_snd:
  "filter (\<lambda>(n, sub). P n) (map (\<lambda>(n, sub). (n, h sub)) subs)
   = map (\<lambda>(n, sub). (n, h sub)) (filter (\<lambda>(n, sub). P n) subs)"
  by (induction subs) auto

lemma spec_tree_remove_gitignore:
  "spec_tree_lines rx spec ns (remove_gitignore t) = spec_tree_lines rx spec ns t"
proof (induction t arbitrary: ns)
  case (Dir subs files)
  have "map (\<lambda>(n, sub). spec_tree_lines rx spec (ns @ [n]) sub)
          (map (\<lambda>(n, sub). (n, remove_gitignore sub))
             (filter (\<lambda>(n, sub). spec_dir_kept rx spec ns n) subs))
        = map (\<lambda>(n, sub). spec_tree_lines rx spec (ns @ [n]) sub)
          (filter (\<lambda>(n, sub). spec_dir_kept rx spec ns n) subs)"
  proof (simp only: map_map, rule map_cong [OF refl])
    fix x assume x: "x \<in> set (filter (\<lambda>(n, sub). spec_dir_kept rx spec ns n) subs)"
    obtain n sub where xd: "x = (n, sub)" by (cases x)
    have mem: "(n, sub) \<in> set subs" using x xd by simp
    show "((\<lambda>(n, sub). spec_tree_lines rx spec (ns @ [n]) sub) \<circ> (\<lambda>(n, sub). (n, remove_gitignore sub))) x =
          (case x of (n, sub) \<Rightarrow> spec_tree_lines rx spec (ns @ [n]) sub)"
      using Dir.IH [of "(n, sub)" sub "ns @ [n]"] mem by (simp add: xd)
  qed
  then show ?case
    by (simp only: remove_gitignore.simps spec_tree_lines.simps kept_map_snd
        included_without_gitignore)
qed

lemma spec_files_remove_gitignore:
  "spec_file_list rx spec ns (remove_gitignore t) = spec_file_list rx spec ns t"
proof (induction t arbitrary: ns)
  case (Dir subs files)
  have "map (\<lambda>(n, sub). spec_file_list rx spec (ns @ [n]) sub)
          (map (\<lambda>(n, sub). (n, remove_gitignore sub))
             (filter (\<lambda>(n, sub). spec_dir_kept rx spec ns n) subs))
        = map (\<lambda>(n, sub). spec_file_list rx spec (ns @ [n]) sub)
          (filter (\<lambda>(n, sub). spec_dir_kept rx spec ns n) subs)"
  proof (simp only: map_map, rule map_cong [OF refl])
    fix x assume x: "x \<in> set (filter (\<lambda>(n, sub). spec_dir_kept rx spec ns n) subs)"
    obtain n sub where xd: "x = (n, sub)" by (cases x)
    have mem: "(n, sub) \<in> set subs" using x xd by simp
    show "((\<lambda>(n, sub). spec_file_list rx spec (ns @ [n]) sub) \<circ> (\<lambda>(n, sub). (n, remove_gitignore sub))) x =
          (case x of (n, sub) \<Rightarrow> spec_file_list rx spec (ns @ [n]) sub)"
      using Dir.IH [of "(n, sub)" sub "ns @ [n]"] mem by (simp add: xd)
  qed
  then show ?case
    by (simp only: remove_gitignore.simps spec_file_list.simps kept_map_snd
        included_without_gitignore)
qed

lemma basename_name: "CHR ''/'' \<notin> set n \<Longrightarrow> basename n = n"
proof -
  assume "CHR ''/'' \<notin> set n"
  then have "takeWhile (\<lambda>c. c \<noteq> CHR ''/'') (rev n) = rev n"
    by (intro takeWhile_eq_all_conv [THEN iffD2]) auto
  then show ?thesis unfolding basename_def by (simp only: rev_rev_ident)
qed

lemma basename_path_of:
  assumes "list_all name_ok (ns @ [f])"
  shows "basename (path_of (ns @ [f])) = f"
proof (cases "ns = []")
  case True
  then show ?thesis using assms by (simp add: path_of_def basename_name name_ok_def)
next
  case False
  have "path_of (ns @ [f]) = join ''/'' ns @ CHR ''/'' # f"
    using False by (simp add: path_of_def join_snoc)
  then show ?thesis using assms basename_append [of f] by (simp add: name_ok_def)
qed

lemma file_line_of_path:
  assumes "list_all name_ok (ns @ [f])"
  shows "file_line_of (path_of (ns @ [f])) = replicate (4 * (length ns + 1)) CHR '' '' @ f"
proof -
  have "count_sep (path_of (ns @ [f])) + 1 = length ns + 1"
    using count_sep_join [of "ns @ [f]"] assms by (simp add: path_of_def)
  then show ?thesis using basename_path_of [OF assms] by (simp add: file_line_of_def)
qed

lemma file_lines_append: "file_lines (a @ b) = file_lines a @ file_lines b"
  by (simp add: file_lines_def)

lemma file_lines_concat: "file_lines (concat xss) = concat (map file_lines xss)"
  by (induction xss) (simp_all add: file_lines_append, simp add: file_lines_def)

lemma file_lines_dir: "file_lines ((a @ b @ ''/'') # rest) = file_lines rest"
  by (simp add: file_lines_def endswith_single)

lemma file_lines_files:
  assumes "list_all name_ok fs"
  shows "file_lines (map (\<lambda>f. ind @ f) fs) = map (\<lambda>f. ind @ f) fs"
proof -
  have "\<And>f. f \<in> set fs \<Longrightarrow> \<not> endswith (ind @ f) ''/''"
    using assms name_ok_last by (auto simp: endswith_single list_all_iff name_ok_def)
  then show ?thesis by (simp add: file_lines_def filter_id_conv)
qed

lemma tree_file_lines_at:
  "wf_fs t \<Longrightarrow> list_all name_ok ns \<Longrightarrow>
   file_lines (spec_tree_lines rx spec ns t) = map file_line_of (spec_file_list rx spec ns t)"
proof (induction t arbitrary: ns)
  case (Dir subs files)
  note wf = \<open>wf_fs (Dir subs files)\<close> and ok = \<open>list_all name_ok ns\<close>
  let ?inc = "filter (spec_file_included rx spec ns) (sort files)"
  let ?kept = "filter (\<lambda>(d, sub). spec_dir_kept rx spec ns d) subs"
  have inc_ok: "list_all name_ok ?inc"
    using wf by (auto simp: list_all_iff)
  have here: "file_lines (map (\<lambda>f. replicate (4 * (length ns + 1)) CHR '' '' @ f) ?inc)
              = map file_line_of (map (\<lambda>f. path_of (ns @ [f])) ?inc)"
  proof -
    have "map file_line_of (map (\<lambda>f. path_of (ns @ [f])) ?inc)
          = map (\<lambda>f. replicate (4 * (length ns + 1)) CHR '' '' @ f) ?inc"
      using inc_ok ok by (auto simp: list_all_iff file_line_of_path)
    then show ?thesis using file_lines_files [OF inc_ok] by simp
  qed
  have below: "map file_lines (map (\<lambda>(d, sub). spec_tree_lines rx spec (ns @ [d]) sub) ?kept)
               = map (map file_line_of) (map (\<lambda>(d, sub). spec_file_list rx spec (ns @ [d]) sub) ?kept)"
  proof (simp only: map_map, rule map_cong [OF refl])
    fix x assume x: "x \<in> set ?kept"
    obtain d sub where xd: "x = (d, sub)" by (cases x)
    have mem: "(d, sub) \<in> set subs" using x xd by simp
    have d: "name_ok d" "wf_fs sub" using wf_fs_subs [OF wf mem] by simp_all
    show "(file_lines \<circ> (\<lambda>(d, sub). spec_tree_lines rx spec (ns @ [d]) sub)) x
          = (map file_line_of \<circ> (\<lambda>(d, sub). spec_file_list rx spec (ns @ [d]) sub)) x"
      using Dir.IH [of "(d, sub)" sub "ns @ [d]"] mem d ok by (simp add: xd)
  qed
  have "file_lines (spec_tree_lines rx spec ns (Dir subs files))
        = file_lines (map (\<lambda>f. replicate (4 * (length ns + 1)) CHR '' '' @ f) ?inc)
          @ concat (map file_lines (map (\<lambda>(d, sub). spec_tree_lines rx spec (ns @ [d]) sub) ?kept))"
    by (simp only: spec_tree_lines.simps file_lines_dir file_lines_append file_lines_concat)
  then show ?case
    by (simp only: here below spec_file_list.simps map_append map_concat)
qed

subsection \<open>Results on the tree walk\<close>

text \<open>
  Claim C2. When the relative path of a directory, with the separator appended,
  matches the pattern set, nothing of that directory reaches the output: the tree
  text and the file list are what they would be if the directory and everything
  in it did not exist, and no path of the file list lies inside it. This holds for
  every pattern set, so also when a negation pattern names a file of the directory.
\<close>

theorem excluded_directory_is_pruned:
  assumes "wf_fs t" and "list_all name_ok ds" and "ds \<noteq> []"
    and "match_file rx spec (path_of ds @ ''/'')"
  shows "build_project_tree rx spec (remove_dir ds t) = build_project_tree rx spec t
         \<and> collect_files rx spec (remove_dir ds t) = collect_files rx spec t
         \<and> (\<forall>p \<in> set (collect_files rx spec t). \<not> startswith p (path_of ds @ ''/''))"
proof -
  have wf': "wf_fs (remove_dir ds t)" using assms(1) by (rule wf_remove_dir)
  have m: "match_file rx spec (path_of ([] @ ds) @ ''/'')" using assms(4) by simp
  have "project_tree_lines rx spec (remove_dir ds t) = project_tree_lines rx spec t"
    using spec_tree_remove_dir [OF assms(3) m]
    by (simp add: project_tree_lines_spec assms(1) wf')
  moreover have "collect_files rx spec (remove_dir ds t) = collect_files rx spec t"
    using spec_files_remove_dir [OF assms(3) m]
    by (simp add: collect_files_spec assms(1) wf')
  moreover have "\<forall>p \<in> set (collect_files rx spec t). \<not> startswith p (path_of ds @ ''/'')"
    using spec_file_list_not_inside [OF assms(1,2,3,4)]
    by (simp add: collect_files_spec assms(1))
  ultimately show ?thesis by (simp add: build_project_tree_def)
qed

theorem excluded_directory_is_pruned_witness:
  "wf_fs nested_tree \<and> list_all name_ok [''out''] \<and> [''out''] \<noteq> []
   \<and> match_file simple_wildmatch nested_spec (path_of [''out''] @ ''/'')
   \<and> \<not> match_file simple_wildmatch nested_spec ''out/keep.txt''
   \<and> remove_dir [''out''] nested_tree =
       Dir [(''src'', Dir [(''out'', Dir [] [''keep.txt''])] [''m.py'', ''.gitignore'', ''a.py''])]
           [''z.txt'', ''.gitignore'']
   \<and> build_project_tree simple_wildmatch nested_spec (remove_dir [''out''] nested_tree)
       = build_project_tree simple_wildmatch nested_spec nested_tree
   \<and> collect_files simple_wildmatch nested_spec nested_tree = [''z.txt'', ''src/a.py'', ''src/m.py'']
   \<and> list_all (\<lambda>p. \<not> startswith p (path_of [''out''] @ ''/''))
        (collect_files simple_wildmatch nested_spec nested_tree)"
proof -
  have h1: "wf_fs nested_tree" by code_simp
  have h2: "list_all name_ok [''out'']" by code_simp
  have h3: "[''out''] \<noteq> ([] :: string list)" by simp
  have h4: "match_file simple_wildmatch nested_spec (path_of [''out''] @ ''/'')" by code_simp
  have e1: "\<not> match_file simple_wildmatch nested_spec ''out/keep.txt''" by code_simp
  have e2: "remove_dir [''out''] nested_tree =
       Dir [(''src'', Dir [(''out'', Dir [] [''keep.txt''])] [''m.py'', ''.gitignore'', ''a.py''])]
           [''z.txt'', ''.gitignore'']" by code_simp
  have e3: "collect_files simple_wildmatch nested_spec nested_tree = [''z.txt'', ''src/a.py'', ''src/m.py'']"
    by code_simp
  from excluded_directory_is_pruned [OF h1 h2 h3 h4] h1 h2 h3 h4 e1 e2 e3
  show ?thesis unfolding list_all_iff by blast
qed

text \<open>
  Claim C3. The file list of \<^verbatim>\<open>collect_files\<close> is the pre-order enumeration of
  the included files, lexicographic within each directory, and the lines of files
  in the list \<^verbatim>\<open>tree\<close> of \<^verbatim>\<open>build_project_tree\<close> are, in the same order, the
  lines of exactly those files: the two passes filter alike.
\<close>

theorem tree_text_and_file_list_agree:
  assumes "wf_fs t"
  shows "collect_files rx spec t = spec_file_list rx spec [] t
         \<and> file_lines (project_tree_lines rx spec t) = map file_line_of (collect_files rx spec t)
         \<and> build_project_tree rx spec t = join [CHR 0x0A] (project_tree_lines rx spec t)"
  using assms tree_file_lines_at [of t "[]" rx spec]
  by (simp add: collect_files_spec project_tree_lines_spec build_project_tree_def)

theorem tree_text_and_file_list_agree_witness:
  "wf_fs nested_tree
   \<and> collect_files simple_wildmatch nested_spec nested_tree = [''z.txt'', ''src/a.py'', ''src/m.py'']
   \<and> file_lines (project_tree_lines simple_wildmatch nested_spec nested_tree)
       = [''    z.txt'', ''        a.py'', ''        m.py'']
   \<and> map file_line_of (collect_files simple_wildmatch nested_spec nested_tree)
       = [''    z.txt'', ''        a.py'', ''        m.py'']"
proof -
  have h: "wf_fs nested_tree" by code_simp
  have e1: "spec_file_list simple_wildmatch nested_spec [] nested_tree = [''z.txt'', ''src/a.py'', ''src/m.py'']"
    by code_simp
  have e2: "map file_line_of [''z.txt'', ''src/a.py'', ''src/m.py'']
            = [''    z.txt'', ''        a.py'', ''        m.py'']"
    by code_simp
  from tree_text_and_file_list_agree [OF h, of simple_wildmatch nested_spec] h e1 e2
  show ?thesis by simp
qed

text \<open>
  Claim C8. The tree text is the lines of the structural walk joined by newlines:
  the root first, at depth 0 and shown as \<^verbatim>\<open>.\<close>; for every visited directory its
  name and the separator behind \<open>4 * depth\<close> spaces, at once followed by one line
  for each included file behind \<open>4 * (depth + 1)\<close> spaces, then its subdirectories.
\<close>

theorem build_project_tree_layout:
  assumes "wf_fs t"
  shows "build_project_tree rx spec t = join [CHR 0x0A] (spec_tree_lines rx spec [] t)
         \<and> hd (spec_tree_lines rx spec [] t) = ''./''"
  using assms
  by (cases t) (simp add: build_project_tree_def project_tree_lines_spec)

theorem build_project_tree_layout_witness:
  "wf_fs scenario_tree
   \<and> build_project_tree simple_wildmatch scenario_spec scenario_tree
       = ''./'' @ [CHR 0x0A] @ ''    a.txt'' @ [CHR 0x0A] @ ''    c/''"
proof -
  have h: "wf_fs scenario_tree" by code_simp
  have e: "join [CHR 0x0A] (spec_tree_lines simple_wildmatch scenario_spec [] scenario_tree)
           = ''./'' @ [CHR 0x0A] @ ''    a.txt'' @ [CHR 0x0A] @ ''    c/''"
    by code_simp
  from build_project_tree_layout [OF h, of simple_wildmatch scenario_spec] h e
  show ?thesis by simp
qed

text \<open>
  Claim C9. A file named \<^verbatim>\<open>.gitignore\<close>, in the root or in any directory below
  it, is in neither output, whatever the pattern set says about it: the tree text
  and the file list are those of the tree without any such file, and no path of the
  file list has that name.
\<close>

theorem gitignore_files_are_left_out:
  assumes "wf_fs t"
  shows "build_project_tree rx spec (remove_gitignore t) = build_project_tree rx spec t
         \<and> collect_files rx spec (remove_gitignore t) = collect_files rx spec t
         \<and> (\<forall>p \<in> set (collect_files rx spec t). path_name p \<noteq> ''.gitignore'')"
proof -
  have wf': "wf_fs (remove_gitignore t)" using assms by (rule wf_remove_gitignore)
  have "\<forall>p \<in> set (collect_files rx spec t). path_name p \<noteq> ''.gitignore''"
  proof
    fix p assume "p \<in> set (collect_files rx spec t)"
    then have "p \<in> set (spec_file_list rx spec [] t)" using assms by (simp add: collect_files_spec)
    then obtain ms f where mf: "p = path_of (ms @ [f])" "list_all name_ok (ms @ [f])" "f \<noteq> ''.gitignore''"
      using spec_file_list_shape [OF assms, of p rx spec "[]"] by auto
    then show "path_name p \<noteq> ''.gitignore''"
      using path_name_path_of [of "ms @ [f]"] by simp
  qed
  then show ?thesis
    using assms wf'
    by (simp add: build_project_tree_def project_tree_lines_spec collect_files_spec
        spec_tree_remove_gitignore spec_files_remove_gitignore)
qed

theorem gitignore_files_are_left_out_witness:
  "wf_fs nested_tree
   \<and> remove_gitignore nested_tree =
       Dir [(''src'', Dir [(''out'', Dir [] [''keep.txt''])] [''m.py'', ''a.py'']),
            (''out'', Dir [(''deep'', Dir [] [''x''])] [''keep.txt''])]
           [''z.txt'']
   \<and> \<not> match_file simple_wildmatch nested_spec ''src/.gitignore''
   \<and> build_project_tree simple_wildmatch nested_spec (remove_gitignore nested_tree)
       = build_project_tree simple_wildmatch nested_spec nested_tree
   \<and> collect_files simple_wildmatch nested_spec nested_tree = [''z.txt'', ''src/a.py'', ''src/m.py'']
   \<and> list_all (\<lambda>p. path_name p \<noteq> ''.gitignore'')
        (collect_files simple_wildmatch nested_spec nested_tree)"
proof -
  have h: "wf_fs nested_tree" by code_simp
  have e1: "remove_gitignore nested_tree =
       Dir [(''src'', Dir [(''out'', Dir [] [''keep.txt''])] [''m.py'', ''a.py'']),
            (''out'', Dir [(''deep'', Dir [] [''x''])] [''keep.txt''])]
           [''z.txt'']" by code_simp
  have e2: "\<not> match_file simple_wildmatch nested_spec ''src/.gitignore''" by code_simp
  have e3: "collect_files simple_wildmatch nested_spec nested_tree = [''z.txt'', ''src/a.py'', ''src/m.py'']"
    by code_simp
  from gitignore_files_are_left_out [OF h, of simple_wildmatch nested_spec] h e1 e2 e3
  show ?thesis unfolding list_all_iff by blast
qed

subsection \<open>The loop of \<^verbatim>\<open>build_final_string\<close>\<close>

lemma never_fails_reliable: "never_fails reliable_console"
  by (simp add: never_fails_def reliable_console_def)

lemma print_text_ok: "never_fails tty \<Longrightarrow> print_text tty text console = Inr (console @ [text])"
  by (simp add: print_text_def never_fails_def)

lemmas print_defs = print_header_def print_code_block_indicator_def print_truncated_content_def
  print_warning_def print_error_def print_empty_def

lemma build_file_reliable:
  "never_fails tty \<Longrightarrow>
   build_file tty env file (out, con) =
     Inr (out @ [file_header file,
                 (if is_binary_file env file then ''(Binary file omitted)'' @ [CHR 0x0A]
                  else (case text_read (env file) of
                          Inr lines \<Rightarrow> (if lines = [] then ''(Empty file)'' @ [CHR 0x0A]
                                         else concat lines @ [CHR 0x0A])
                        | Inl e \<Rightarrow> ''(Could not read file: '' @ e @ '')'' @ [CHR 0x0A]))],
          con @ [fore_green @ ''### File: '' @ file @ style_reset_all,
                 fore_magenta @ ''### Code block below:'' @ style_reset_all,
                 (if is_binary_file env file
                  then fore_yellow @ ''(Binary file omitted)'' @ style_reset_all
                  else (case text_read (env file) of
                          Inr lines \<Rightarrow>
                            (if lines = [] then fore_yellow @ ''(Empty file)'' @ style_reset_all
                             else fore_white @ rstrip_nl (concat (take 20 lines)) @ ''...''
                                  @ [CHR 0x0A] @ style_reset_all)
                        | Inl e \<Rightarrow>
                            fore_red @ ''(Could not read file: '' @ e @ '')'' @ style_reset_all)),
                 []])"
  by (simp add: build_file_def try_block_def except_handler_def print_defs print_text_ok
      file_header_def Let_def split: sum.splits)

lemma file_output_cases:
  "file_output env file =
     [file_header file,
      (if is_binary_file env file then ''(Binary file omitted)'' @ [CHR 0x0A]
       else (case text_read (env file) of
               Inr lines \<Rightarrow> (if lines = [] then ''(Empty file)'' @ [CHR 0x0A]
                              else concat lines @ [CHR 0x0A])
             | Inl e \<Rightarrow> ''(Could not read file: '' @ e @ '')'' @ [CHR 0x0A]))]"
  by (simp add: file_output_def build_file_reliable [OF never_fails_reliable])

lemma file_console_cases:
  "file_console env file =
     [fore_green @ ''### File: '' @ file @ style_reset_all,
      fore_magenta @ ''### Code block below:'' @ style_reset_all,
      (if is_binary_file env file
       then fore_yellow @ ''(Binary file omitted)'' @ style_reset_all
       else (case text_read (env file) of
               Inr lines \<Rightarrow>
                 (if lines = [] then fore_yellow @ ''(Empty file)'' @ style_reset_all
                  else fore_white @ rstrip_nl (concat (take 20 lines)) @ ''...''
                       @ [CHR 0x0A] @ style_reset_all)
             | Inl e \<Rightarrow>
                 fore_red @ ''(Could not read file: '' @ e @ '')'' @ style_reset_all)),
      []]"
  by (simp add: file_console_def build_file_reliable [OF never_fails_reliable])

lemma build_file_appends:
  "never_fails tty \<Longrightarrow>
   build_file tty env file (out, con) = Inr (out @ file_output env file, con @ file_console env file)"
  by (simp only: build_file_reliable file_output_cases file_console_cases)

lemma build_loop_appends:
  "never_fails tty \<Longrightarrow>
   build_loop tty env files (out, con) =
     Inr (out @ concat (map (file_output env) files), con @ concat (map (file_console env) files))"
  by (induction files arbitrary: out con) (simp_all add: build_file_appends)

lemma build_output_ok:
  "never_fails tty \<Longrightarrow>
   build_output tty env tree files console =
     Inr ([''Project Tree:'', tree, []] @ concat (map (file_output env) files),
          console @ concat (map (file_console env) files))"
  by (simp add: build_output_def build_loop_appends)

lemma build_final_string_ok:
  "never_fails tty \<Longrightarrow>
   build_final_string tty env tree files console =
     Inr (join [CHR 0x0A] ([''Project Tree:'', tree, []] @ concat (map (file_output env) files)),
          console @ concat (map (file_console env) files))"
  by (simp add: build_final_string_def build_output_ok)

lemma length_file_output: "length (file_output env file) = 2"
  by (simp add: file_output_cases)

lemma length_file_console: "length (file_console env file) = 4"
  by (simp add: file_console_cases)

lemma nth_concat_uniform:
  "(\<And>x. length (g x) = k) \<Longrightarrow> i < length xs \<Longrightarrow> j < k \<Longrightarrow>
   concat (map g xs) ! (k * i + j) = g (xs ! i) ! j"
proof (induction xs arbitrary: i)
  case Nil then show ?case by simp
next
  case (Cons x xs)
  show ?case
  proof (cases i)
    case 0
    then show ?thesis using Cons.prems by (simp add: nth_append)
  next
    case (Suc i')
    have "k * i + j = length (g x) + (k * i' + j)" using Suc Cons.prems(1) by simp
    then show ?thesis using Suc Cons by (simp add: nth_append del: mult_Suc_right)
  qed
qed

lemma length_concat_uniform:
  "(\<And>x. length (g x) = k) \<Longrightarrow> length (concat (map g xs)) = k * length xs"
  by (induction xs) simp_all

lemma output_nth:
  assumes "i < length files" "j < 2"
  shows "([''Project Tree:'', tree, []] @ concat (map (file_output env) files)) ! (3 + 2 * i + j)
         = file_output env (files ! i) ! j"
proof -
  have "concat (map (file_output env) files) ! (2 * i + j) = file_output env (files ! i) ! j"
    using assms by (intro nth_concat_uniform) (simp_all add: length_file_output)
  then show ?thesis by (simp add: nth_append add.assoc)
qed

lemma length_output:
  "length ([''Project Tree:'', tree, []] @ concat (map (file_output env) files))
   = 3 + 2 * length files"
  using length_concat_uniform [of "file_output env" 2 files]
  by (simp add: length_file_output)

lemma console_nth:
  assumes "i < length files" "j < 4"
  shows "(console @ concat (map (file_console env) files)) ! (length console + 4 * i + j)
         = file_console env (files ! i) ! j"
proof -
  have "concat (map (file_console env) files) ! (4 * i + j) = file_console env (files ! i) ! j"
    using assms by (intro nth_concat_uniform) (simp_all add: length_file_console)
  then show ?thesis by (simp add: nth_append add.assoc)
qed

lemma sublist_join_pair:
  "Suc k < length xs \<Longrightarrow> sublist (xs ! k @ sep @ xs ! Suc k) (join sep xs)"
proof (induction sep xs arbitrary: k rule: join.induct)
  case (1 sep) then show ?case by simp
next
  case (2 sep x) then show ?case by simp
next
  case (3 sep x y ys)
  show ?case
  proof (cases k)
    case 0
    have "join sep (x # y # ys) = [] @ (x @ sep @ y) @ (if ys = [] then [] else sep @ join sep ys)"
      by (cases ys) simp_all
    then have "sublist (x @ sep @ y) (join sep (x # y # ys))"
      by (metis sublist_appendI)
    then show ?thesis using 0 by simp
  next
    case (Suc k')
    then have "sublist ((y # ys) ! k' @ sep @ (y # ys) ! Suc k') (join sep (y # ys))"
      using 3 by simp
    then obtain ps ss where "join sep (y # ys) = ps @ ((y # ys) ! k' @ sep @ (y # ys) ! Suc k') @ ss"
      by (auto simp: sublist_def)
    then have "join sep (x # y # ys) = (x @ sep @ ps) @ ((y # ys) ! k' @ sep @ (y # ys) ! Suc k') @ ss"
      by simp
    then have "sublist ((y # ys) ! k' @ sep @ (y # ys) ! Suc k') (join sep (x # y # ys))"
      by (metis sublist_appendI)
    then show ?thesis using Suc by simp
  qed
qed

lemma block_in_document:
  assumes "i < length files"
  shows "sublist (file_output env (files ! i) ! 0 @ [CHR 0x0A] @ file_output env (files ! i) ! 1)
           (join [CHR 0x0A] ([''Project Tree:'', tree, []] @ concat (map (file_output env) files)))"
proof -
  let ?out = "[''Project Tree:'', tree, []] @ concat (map (file_output env) files)"
  have "Suc (3 + 2 * i) < length ?out" using assms by (simp only: length_output)
  then have "sublist (?out ! (3 + 2 * i) @ [CHR 0x0A] @ ?out ! Suc (3 + 2 * i)) (join [CHR 0x0A] ?out)"
    by (rule sublist_join_pair)
  moreover have "?out ! (3 + 2 * i + 0) = file_output env (files ! i) ! 0"
    using assms by (intro output_nth) simp_all
  moreover have "?out ! (3 + 2 * i + 1) = file_output env (files ! i) ! 1"
    using assms by (intro output_nth) simp_all
  ultimately show ?thesis by (simp del: append.simps join.simps)
qed

lemma prefix_rstrip_nl: "prefix (rstrip_nl s) s"
proof -
  have "s = rev (takeWhile (\<lambda>c. c = CHR 0x0A) (rev s) @ dropWhile (\<lambda>c. c = CHR 0x0A) (rev s))"
    by simp
  then have "s = rstrip_nl s @ rev (takeWhile (\<lambda>c. c = CHR 0x0A) (rev s))"
    by (simp only: rev_append rstrip_nl_def)
  then show ?thesis by (metis prefixI)
qed

lemma prefix_concat_take: "prefix (concat (take n xs)) (concat xs)"
proof -
  have "concat xs = concat (take n xs) @ concat (drop n xs)"
    by (metis append_take_drop_id concat_append)
  then show ?thesis by (metis prefixI)
qed

lemma file_output_cong: "env f = env' f \<Longrightarrow> file_output env f = file_output env' f"
  by (simp add: file_output_cases is_binary_file_def)

lemma prints_succeed_append:
  "prints_succeed tty con (a @ b) = (prints_succeed tty con a \<and> prints_succeed tty (con @ a) b)"
  by (induction a arbitrary: con) auto

lemma build_file_prints:
  assumes "prints_succeed tty con (file_console env file)"
  shows "build_file tty env file (out, con)
         = Inr (out @ file_output env file, con @ file_console env file)"
proof -
  let ?t1 = "fore_green @ ''### File: '' @ file @ style_reset_all"
  let ?t2 = "fore_magenta @ ''### Code block below:'' @ style_reset_all"
  obtain t3 where fc: "file_console env file = [?t1, ?t2, t3, []]"
    by (simp add: file_console_cases)
  from assms have p: "tty con ?t1 = None" "tty (con @ [?t1]) ?t2 = None"
    "tty (con @ [?t1, ?t2]) t3 = None" "tty (con @ [?t1, ?t2, t3]) [] = None"
    by (simp_all add: fc)
  show ?thesis
  proof (cases "is_binary_file env file")
    case True
    then have t3: "t3 = fore_yellow @ ''(Binary file omitted)'' @ style_reset_all"
      using fc by (simp add: file_console_cases)
    show ?thesis
      using True p unfolding fc t3
      by (simp add: file_output_cases build_file_def print_defs print_text_def
          file_header_def Let_def)
  next
    case False
    show ?thesis
    proof (cases "text_read (env file)")
      case (Inl e)
      then have t3: "t3 = fore_red @ ''(Could not read file: '' @ e @ '')'' @ style_reset_all"
        using fc False by (simp add: file_console_cases)
      show ?thesis
        using False Inl p unfolding fc t3
        by (simp add: file_output_cases build_file_def try_block_def except_handler_def
            print_defs print_text_def file_header_def Let_def)
    next
      case (Inr lines)
      show ?thesis
      proof (cases "lines = []")
        case True
        then have t3: "t3 = fore_yellow @ ''(Empty file)'' @ style_reset_all"
          using fc False Inr by (simp add: file_console_cases)
        show ?thesis
          using False Inr True p unfolding fc t3
          by (simp add: file_output_cases build_file_def try_block_def
              print_defs print_text_def file_header_def Let_def)
      next
        case ne: False
        then have t3: "t3 = fore_white @ rstrip_nl (concat (take 20 lines)) @ ''...''
                            @ [CHR 0x0A] @ style_reset_all"
          using fc False Inr by (simp add: file_console_cases)
        show ?thesis
          using False Inr ne p unfolding fc t3
          by (simp add: file_output_cases build_file_def try_block_def
              print_defs print_text_def file_header_def Let_def)
      qed
    qed
  qed
qed

lemma build_loop_prints:
  "prints_succeed tty con (concat (map (file_console env) files)) \<Longrightarrow>
   build_loop tty env files (out, con) =
     Inr (out @ concat (map (file_output env) files), con @ concat (map (file_console env) files))"
proof (induction files arbitrary: out con)
  case Nil then show ?case by simp
next
  case (Cons f files)
  from Cons.prems have a: "prints_succeed tty con (file_console env f)"
    and b: "prints_succeed tty (con @ file_console env f) (concat (map (file_console env) files))"
    by (simp_all add: prints_succeed_append)
  show ?case by (simp add: build_file_prints [OF a] Cons.IH [OF b])
qed

lemma build_final_string_prints:
  "prints_succeed tty console (concat (map (file_console env) files)) \<Longrightarrow>
   build_final_string tty env tree files console =
     Inr (join [CHR 0x0A] ([''Project Tree:'', tree, []] @ concat (map (file_output env) files)),
          console @ concat (map (file_console env) files))"
  by (simp add: build_final_string_def build_output_def build_loop_prints)

subsection \<open>Results on the document\<close>

text \<open>
  Claim C4. A file that cannot be opened for the binary check, or whose first 1024
  bytes hold a null byte, whatever follows them, is classified as binary, and the
  document, which a run on a console that does not fail returns, holds the
  placeholder \<^verbatim>\<open>(Binary file omitted)\<close> under its header in place of its content.
\<close>

theorem binary_file_is_omitted:
  assumes "i < length files"
    and "(\<exists>e. binary_read (env (files ! i)) = Inl e)
         \<or> (\<exists>chunk rest. binary_read (env (files ! i)) = Inr (chunk @ rest)
               \<and> length chunk \<le> 1024 \<and> CHR 0x00 \<in> set chunk)"
    and "never_fails tty"
  shows "is_binary_file env (files ! i)
         \<and> (\<exists>output document console'.
               build_output tty env tree files console = Inr (output, console')
               \<and> build_final_string tty env tree files console = Inr (document, console')
               \<and> output ! (3 + 2 * i) = file_header (files ! i)
               \<and> output ! (4 + 2 * i) = ''(Binary file omitted)'' @ [CHR 0x0A]
               \<and> sublist (file_header (files ! i) @ [CHR 0x0A] @ ''(Binary file omitted)''
                             @ [CHR 0x0A]) document)"
proof -
  let ?out = "[''Project Tree:'', tree, []] @ concat (map (file_output env) files)"
  have b: "is_binary_file env (files ! i)"
    using assms(2) by (auto simp: is_binary_file_def Let_def)
  then have fo: "file_output env (files ! i)
                 = [file_header (files ! i), ''(Binary file omitted)'' @ [CHR 0x0A]]"
    by (simp add: file_output_cases)
  have "?out ! (3 + 2 * i + 0) = file_header (files ! i)"
    using output_nth [OF assms(1), of 0 tree env] fo by simp
  moreover have "?out ! (3 + 2 * i + 1) = ''(Binary file omitted)'' @ [CHR 0x0A]"
    using output_nth [OF assms(1), of 1 tree env] fo by simp
  moreover have "sublist (file_header (files ! i) @ [CHR 0x0A] @ ''(Binary file omitted)'' @ [CHR 0x0A])
              (join [CHR 0x0A] ?out)"
    using block_in_document [OF assms(1), of env tree] fo by simp
  ultimately show ?thesis
    using b build_output_ok [OF assms(3), of env tree files console]
      build_final_string_ok [OF assms(3), of env tree files console]
    by (simp del: append.simps join.simps)
qed

theorem binary_file_is_omitted_witness:
  "binary_read (demo_env ([''a.txt'', ''b.bin'', ''locked''] ! 1)) = Inr ([CHR 0x68, CHR 0x00] @ [CHR 0x69])
   \<and> never_fails reliable_console
   \<and> is_binary_file demo_env ([''a.txt'', ''b.bin'', ''locked''] ! 1)
   \<and> binary_read (demo_env ([''a.txt'', ''b.bin'', ''locked''] ! 2)) = Inl ''[Errno 13] Permission denied''
   \<and> is_binary_file demo_env ([''a.txt'', ''b.bin'', ''locked''] ! 2)
   \<and> (\<exists>output console'.
         build_output reliable_console demo_env ''./'' [''a.txt'', ''b.bin'', ''locked''] []
           = Inr (output, console')
         \<and> output ! (4 + 2 * 1) = ''(Binary file omitted)'' @ [CHR 0x0A]
         \<and> output ! (4 + 2 * 2) = ''(Binary file omitted)'' @ [CHR 0x0A])"
proof -
  let ?files = "[''a.txt'', ''b.bin'', ''locked'']"
  have l1: "(1::nat) < length ?files" and l2: "(2::nat) < length ?files" by simp_all
  have r1: "binary_read (demo_env (?files ! 1)) = Inr ([CHR 0x68, CHR 0x00] @ [CHR 0x69])"
    by (simp add: demo_env_def text_file_def latin_name_def)
  have r2: "binary_read (demo_env (?files ! 2)) = Inl ''[Errno 13] Permission denied''"
    by (simp add: demo_env_def unreadable_file_def latin_name_def)
  have h1: "(\<exists>e. binary_read (demo_env (?files ! 1)) = Inl e)
         \<or> (\<exists>chunk rest. binary_read (demo_env (?files ! 1)) = Inr (chunk @ rest)
               \<and> length chunk \<le> 1024 \<and> CHR 0x00 \<in> set chunk)"
    using r1 by (intro disjI2 exI [of _ "[CHR 0x68, CHR 0x00]"] exI [of _ "[CHR 0x69]"]) simp
  have h2: "(\<exists>e. binary_read (demo_env (?files ! 2)) = Inl e)
         \<or> (\<exists>chunk rest. binary_read (demo_env (?files ! 2)) = Inr (chunk @ rest)
               \<and> length chunk \<le> 1024 \<and> CHR 0x00 \<in> set chunk)"
    using r2 by (intro disjI1 exI)
  note nf = never_fails_reliable
  note w1 = binary_file_is_omitted [where i = 1 and files = ?files and env = demo_env
         and tty = reliable_console and tree = "''./''" and console = "[]", OF l1 h1 nf]
  note w2 = binary_file_is_omitted [where i = 2 and files = ?files and env = demo_env
         and tty = reliable_console and tree = "''./''" and console = "[]", OF l2 h2 nf]
  show ?thesis using w1 w2 r1 r2 nf by (metis Pair_inject sum.inject(2))
qed

text \<open>
  Claim C5. For a file that is not binary and whose \<^verbatim>\<open>readlines\<close> returns a
  non-empty list of lines, the document that a run on a console that does not fail
  returns holds all the lines, joined as they are, under the file's header, however
  many there are. What is printed for the file is the first 20 lines at most,
  stripped of trailing newlines and followed by the ellipsis and a newline;
  shortening the print does not change the document.
\<close>

theorem text_file_kept_in_full:
  assumes "i < length files"
    and "\<not> is_binary_file env (files ! i)"
    and "text_read (env (files ! i)) = Inr lines"
    and "lines \<noteq> []"
    and "never_fails tty"
  shows "\<exists>output document console'.
           build_output tty env tree files console = Inr (output, console')
           \<and> build_final_string tty env tree files console = Inr (document, console')
           \<and> output ! (4 + 2 * i) = concat lines @ [CHR 0x0A]
           \<and> sublist (file_header (files ! i) @ [CHR 0x0A] @ concat lines @ [CHR 0x0A]) document
           \<and> console' ! (length console + 4 * i + 2)
               = fore_white @ rstrip_nl (concat (take 20 lines)) @ ''...'' @ [CHR 0x0A]
                 @ style_reset_all
           \<and> prefix (rstrip_nl (concat (take 20 lines))) (concat lines)
           \<and> length (take 20 lines) \<le> 20"
proof -
  let ?out = "[''Project Tree:'', tree, []] @ concat (map (file_output env) files)"
  let ?con = "console @ concat (map (file_console env) files)"
  have fo: "file_output env (files ! i) = [file_header (files ! i), concat lines @ [CHR 0x0A]]"
    using assms(2,3,4) by (simp add: file_output_cases)
  have fc: "file_console env (files ! i) ! 2
            = fore_white @ rstrip_nl (concat (take 20 lines)) @ ''...'' @ [CHR 0x0A] @ style_reset_all"
    using assms(2,3,4) by (simp add: file_console_cases)
  have "?out ! (3 + 2 * i + 1) = concat lines @ [CHR 0x0A]"
    using output_nth [OF assms(1), of 1 tree env] fo by simp
  moreover have "sublist (file_header (files ! i) @ [CHR 0x0A] @ concat lines @ [CHR 0x0A])
              (join [CHR 0x0A] ?out)"
    using block_in_document [OF assms(1), of env tree] fo by simp
  moreover have "?con ! (length console + 4 * i + 2)
             = fore_white @ rstrip_nl (concat (take 20 lines)) @ ''...'' @ [CHR 0x0A] @ style_reset_all"
    using console_nth [OF assms(1), of 2 console env] fc by simp
  moreover have "prefix (rstrip_nl (concat (take 20 lines))) (concat lines)"
    using prefix_rstrip_nl [of "concat (take 20 lines)"] prefix_concat_take [of 20 lines]
    by (metis append.assoc prefix_def)
  ultimately show ?thesis
    using build_output_ok [OF assms(5), of env tree files console]
      build_final_string_ok [OF assms(5), of env tree files console]
    by (simp del: append.simps join.simps)
qed

theorem text_file_kept_in_full_witness:
  "\<not> is_binary_file demo_env ([''a.txt'', ''long''] ! 1)
   \<and> text_read (demo_env ([''a.txt'', ''long''] ! 1)) = Inr (replicate 25 (''x'' @ [CHR 0x0A]))
   \<and> never_fails reliable_console
   \<and> length long_text = 50
   \<and> (\<exists>output console'.
         build_output reliable_console demo_env ''./'' [''a.txt'', ''long''] [] = Inr (output, console')
         \<and> output ! (4 + 2 * 1) = long_text @ [CHR 0x0A]
         \<and> console' ! (length ([] :: string list) + 4 * 1 + 2)
             = fore_white @ (concat (replicate 19 (''x'' @ [CHR 0x0A])) @ ''x'') @ ''...''
               @ [CHR 0x0A] @ style_reset_all)"
proof -
  let ?files = "[''a.txt'', ''long'']"
  let ?lines = "replicate 25 (''x'' @ [CHR 0x0A])"
  have l: "(1::nat) < length ?files" by simp
  have nb: "\<not> is_binary_file demo_env (?files ! 1)" by code_simp
  have tr: "text_read (demo_env (?files ! 1)) = Inr ?lines" by code_simp
  have ne: "?lines \<noteq> []" by code_simp
  have c: "concat ?lines = long_text" by (simp add: long_text_def)
  have len: "length long_text = 50" by code_simp
  have t: "rstrip_nl (concat (take 20 ?lines)) = concat (replicate 19 (''x'' @ [CHR 0x0A])) @ ''x''"
    by code_simp
  note nf = never_fails_reliable
  note w = text_file_kept_in_full [where i = 1 and files = ?files and env = demo_env
         and lines = ?lines and tty = reliable_console and tree = "''./''" and console = "[]",
         OF l nb tr ne nf]
  show ?thesis using w nb tr nf len unfolding c t by blast
qed

text \<open>
  Claim C6, as the code has it. A file whose read attempt fails because it cannot
  be opened is met first by the binary check, which takes the failure for a binary
  file: the document records \<^verbatim>\<open>(Binary file omitted)\<close> for it and not the
  \<^verbatim>\<open>(Could not read file: ...)\<close> placeholder.
\<close>

theorem unreadable_file_counterexample:
  "binary_read (demo_env ''locked'') = Inl ''[Errno 13] Permission denied''
   \<and> text_read (demo_env ''locked'') = Inl ''[Errno 13] Permission denied''
   \<and> map_sum id fst (build_output reliable_console demo_env ''./'' [''locked''] [])
       = Inr [''Project Tree:'', ''./'', [], file_header ''locked'',
              ''(Binary file omitted)'' @ [CHR 0x0A]]
   \<and> document_of (build_final_string reliable_console demo_env ''./'' [''locked''] [])
       = Some (join [CHR 0x0A] [''Project Tree:'', ''./'', [], file_header ''locked'',
                ''(Binary file omitted)'' @ [CHR 0x0A]])
   \<and> \<not> sublist ''(Could not read file''
         (join [CHR 0x0A] [''Project Tree:'', ''./'', [], file_header ''locked'',
            ''(Binary file omitted)'' @ [CHR 0x0A]])"
  by code_simp

text \<open>
  Claim C6, amended. A file of the list that cannot be opened for the binary check
  gets the placeholder \<^verbatim>\<open>(Binary file omitted)\<close>; a file that passes the binary
  check and whose text read then fails with the error \<open>e\<close> gets
  \<^verbatim>\<open>(Could not read file: e)\<close>. In both cases the run goes on: on a console that
  does not fail it returns, and the output list holds, for every file of the list
  and in the order of the list, its header and one item after it.
\<close>

theorem read_failure_is_recorded:
  assumes "i < length files" and "never_fails tty"
  shows "\<exists>output console'.
           build_output tty env tree files console = Inr (output, console')
           \<and> build_final_string tty env tree files console
               = Inr (join [CHR 0x0A] output, console')
           \<and> (\<forall>e. binary_read (env (files ! i)) = Inl e \<longrightarrow>
                  output ! (4 + 2 * i) = ''(Binary file omitted)'' @ [CHR 0x0A])
           \<and> (\<forall>e. \<not> is_binary_file env (files ! i) \<and> text_read (env (files ! i)) = Inl e \<longrightarrow>
                  output ! (4 + 2 * i) = ''(Could not read file: '' @ e @ '')'' @ [CHR 0x0A])
           \<and> length output = 3 + 2 * length files
           \<and> (\<forall>j<length files. output ! (3 + 2 * j) = file_header (files ! j))"
proof -
  let ?out = "[''Project Tree:'', tree, []] @ concat (map (file_output env) files)"
  have item: "?out ! (4 + 2 * i) = file_output env (files ! i) ! 1"
    using output_nth [OF assms(1), of 1 tree env] by simp
  have a: "\<forall>e. binary_read (env (files ! i)) = Inl e \<longrightarrow>
            ?out ! (4 + 2 * i) = ''(Binary file omitted)'' @ [CHR 0x0A]"
    by (simp only: item) (simp add: file_output_cases is_binary_file_def)
  have b: "\<forall>e. \<not> is_binary_file env (files ! i) \<and> text_read (env (files ! i)) = Inl e \<longrightarrow>
            ?out ! (4 + 2 * i) = ''(Could not read file: '' @ e @ '')'' @ [CHR 0x0A]"
    by (simp only: item) (simp add: file_output_cases)
  have c: "\<forall>j<length files. ?out ! (3 + 2 * j) = file_header (files ! j)"
  proof (intro allI impI)
    fix j assume j: "j < length files"
    have "?out ! (3 + 2 * j + 0) = file_output env (files ! j) ! 0"
      using j by (intro output_nth) simp_all
    then show "?out ! (3 + 2 * j) = file_header (files ! j)"
      by (simp add: file_output_cases)
  qed
  show ?thesis
    using a b c length_output [of tree env files]
      build_output_ok [OF assms(2), of env tree files console]
      build_final_string_ok [OF assms(2), of env tree files console]
    by blast
qed

theorem read_failure_is_recorded_witness:
  "\<not> is_binary_file demo_env ([''locked'', ''gone'', ''a.txt''] ! 1)
   \<and> text_read (demo_env ([''locked'', ''gone'', ''a.txt''] ! 1)) = Inl ''[Errno 2] No such file''
   \<and> binary_read (demo_env ([''locked'', ''gone'', ''a.txt''] ! 0)) = Inl ''[Errno 13] Permission denied''
   \<and> never_fails reliable_console
   \<and> (\<exists>output console'.
         build_output reliable_console demo_env ''./'' [''locked'', ''gone'', ''a.txt''] []
           = Inr (output, console')
         \<and> output ! (4 + 2 * 0) = ''(Binary file omitted)'' @ [CHR 0x0A]
         \<and> output ! (4 + 2 * 1)
             = ''(Could not read file: '' @ ''[Errno 2] No such file'' @ '')'' @ [CHR 0x0A]
         \<and> output ! (3 + 2 * 2) = file_header ([''locked'', ''gone'', ''a.txt''] ! 2)
         \<and> length output = 3 + 2 * length [''locked'', ''gone'', ''a.txt''])"
proof -
  let ?files = "[''locked'', ''gone'', ''a.txt'']"
  have l0: "(0::nat) < length ?files" and l1: "(1::nat) < length ?files"
    and l2: "(2::nat) < length ?files" by simp_all
  have r0: "binary_read (demo_env (?files ! 0)) = Inl ''[Errno 13] Permission denied''"
    by code_simp
  have nb: "\<not> is_binary_file demo_env (?files ! 1)" by code_simp
  have tr: "text_read (demo_env (?files ! 1)) = Inl ''[Errno 2] No such file''" by code_simp
  note nf = never_fails_reliable
  note w0 = read_failure_is_recorded [where i = 0 and files = ?files and env = demo_env
         and tty = reliable_console and tree = "''./''" and console = "[]", OF l0 nf]
  note w1 = read_failure_is_recorded [where i = 1 and files = ?files and env = demo_env
         and tty = reliable_console and tree = "''./''" and console = "[]", OF l1 nf]
  show ?thesis using w0 w1 r0 nb tr l2 nf by (metis Pair_inject sum.inject(2))
qed



text \<open>
  Claim C10, as the code has it. The console does bear on what is returned. The
  file \<^verbatim>\<open>latin\<close> holds a character that a console limited to ASCII cannot print:
  on that console the print of the preview raises inside the \<^verbatim>\<open>try\<close> block, the
  exception is caught, and the document gets an item more than on a console that
  prints everything. For a file whose name holds such a character the print of the
  header raises, outside the block, and no document is returned.
\<close>

theorem console_failure_counterexample:
  "document_of (build_final_string reliable_console demo_env ''./'' [''latin''] [])
     = Some (join [CHR 0x0A] [''Project Tree:'', ''./'', [], file_header ''latin'',
               ''caf'' @ [CHR 0xE9, CHR 0x0A, CHR 0x0A]])
   \<and> document_of (build_final_string ascii_console demo_env ''./'' [''latin''] [])
     = Some (join [CHR 0x0A] [''Project Tree:'', ''./'', [], file_header ''latin'',
               ''caf'' @ [CHR 0xE9, CHR 0x0A, CHR 0x0A],
               ''(Could not read file: ascii codec cannot encode character)'' @ [CHR 0x0A]])
   \<and> document_of (build_final_string reliable_console demo_env ''./'' [''latin''] [])
       \<noteq> document_of (build_final_string ascii_console demo_env ''./'' [''latin''] [])
   \<and> document_of (build_final_string reliable_console demo_env ''./'' [latin_name] [])
     = Some (join [CHR 0x0A] [''Project Tree:'', ''./'', [], file_header latin_name,
               ''caf'' @ [CHR 0xE9, CHR 0x0A, CHR 0x0A]])
   \<and> build_final_string ascii_console demo_env ''./'' [latin_name] []
     = Inl ''ascii codec cannot encode character''"
  by code_simp

text \<open>
  Claim C10, amended. Two runs on the same tree text and the same file list, with
  environments that agree on the listed files, and in neither of which a print
  raises, return the same document, whatever other files hold, whatever the consoles
  held before and however the consoles would treat other texts.
\<close>

theorem build_final_string_deterministic:
  assumes "\<forall>f \<in> set files. env f = env' f"
    and "prints_succeed tty console (concat (map (file_console env) files))"
    and "prints_succeed tty' console' (concat (map (file_console env') files))"
  shows "\<exists>document console1 console2.
           build_final_string tty env tree files console = Inr (document, console1)
           \<and> build_final_string tty' env' tree files console' = Inr (document, console2)"
proof -
  have m: "map (file_output env) files = map (file_output env') files"
  proof (rule map_cong [OF refl])
    fix f assume "f \<in> set files"
    then have "env f = env' f" using assms(1) by blast
    then show "file_output env f = file_output env' f" by (rule file_output_cong)
  qed
  show ?thesis
    using build_final_string_prints [OF assms(2), of tree]
      build_final_string_prints [OF assms(3), of tree]
    by (simp only: m) blast
qed

theorem build_final_string_deterministic_witness:
  "list_all (\<lambda>f. demo_env f = (demo_env(''other'' := text_file ''zzz'')) f) [''a.txt'', ''b.bin'']
   \<and> demo_env ''other'' \<noteq> (demo_env(''other'' := text_file ''zzz'')) ''other''
   \<and> prints_succeed ascii_console []
        (concat (map (file_console demo_env) [''a.txt'', ''b.bin'']))
   \<and> prints_succeed reliable_console [''printed earlier'']
        (concat (map (file_console (demo_env(''other'' := text_file ''zzz''))) [''a.txt'', ''b.bin'']))
   \<and> \<not> never_fails ascii_console
   \<and> document_of (build_final_string ascii_console demo_env ''./'' [''a.txt'', ''b.bin''] [])
       = document_of (build_final_string reliable_console (demo_env(''other'' := text_file ''zzz''))
           ''./'' [''a.txt'', ''b.bin''] [''printed earlier''])"
proof -
  let ?env' = "demo_env(''other'' := text_file ''zzz'')"
  let ?files = "[''a.txt'', ''b.bin'']"
  have h: "\<forall>f \<in> set ?files. demo_env f = ?env' f" by simp
  have d: "demo_env ''other'' \<noteq> ?env' ''other''"
    by (simp add: demo_env_def unreadable_file_def text_file_def latin_name_def)
  have p1: "prints_succeed ascii_console [] (concat (map (file_console demo_env) ?files))"
    by code_simp
  have p2: "prints_succeed reliable_console [''printed earlier'']
              (concat (map (file_console ?env') ?files))"
    by code_simp
  have nf: "\<not> never_fails ascii_console"
  proof
    assume "never_fails ascii_console"
    then have "ascii_console [] [CHR 0xE9] = None" by (simp add: never_fails_def)
    then show False by (simp add: ascii_console_def)
  qed
  obtain document c1 c2 where
    r: "build_final_string ascii_console demo_env ''./'' ?files [] = Inr (document, c1)"
       "build_final_string reliable_console ?env' ''./'' ?files [''printed earlier'']
          = Inr (document, c2)"
    using build_final_string_deterministic [where env = demo_env and env' = ?env'
      and files = ?files and tree = "''./''" and console = "[]" and tty = ascii_console
      and tty' = reliable_console and console' = "[''printed earlier'']", OF h p1 p2]
    by blast
  have e: "document_of (build_final_string ascii_console demo_env ''./'' ?files [])
       = document_of (build_final_string reliable_console ?env' ''./'' ?files [''printed earlier''])"
    by (simp only: r document_of_def sum.case prod.case)
  show ?thesis using h d p1 p2 nf e unfolding list_all_iff by blast
qed

end
